theory Spec2Isabelle
  imports Main "HOL-Library.Word" "HOL-Library.Multiset" "HOL-Library.Sublist"
begin

section \<open>Support Toolkit log analyzer (src/main.py)\<close>

text \<open>
  A shallow embedding of \<^verbatim>\<open>src/main.py\<close>: the log-line pattern \<^verbatim>\<open>LOG_RE\<close>, the
  scanning loop of \<^verbatim>\<open>analyze_log\<close>, the report it builds, the two writers and the
  console summary, and \<^verbatim>\<open>main\<close>. Python \<^verbatim>\<open>str\<close> values are lists of Unicode code
  points, file contents are lists of bytes, Python integers are \<open>int\<close>, dictionaries and
  \<^verbatim>\<open>Counter\<close>s are association lists in insertion order, and every exception the code
  can raise is a value of \<open>error\<close>.
\<close>

subsection \<open>Strings\<close>

type_synonym codepoint = nat
type_synonym str = "codepoint list"
type_synonym byte = "8 word"

abbreviation (input) lit :: "string \<Rightarrow> str" where
  "lit s \<equiv> map of_char s"

text \<open>
  \<^verbatim>\<open>str.strip()\<close> and the pattern class \<^verbatim>\<open>\s\<close> use the same test
  (\<^verbatim>\<open>Py_UNICODE_ISSPACE\<close>): the code points below.
\<close>

definition is_space :: "codepoint \<Rightarrow> bool" where
  "is_space c \<longleftrightarrow>
     (9 \<le> c \<and> c \<le> 13) \<or> (28 \<le> c \<and> c \<le> 32) \<or> c = 133 \<or> c = 160 \<or> c = 5760 \<or>
     (8192 \<le> c \<and> c \<le> 8202) \<or> c = 8232 \<or> c = 8233 \<or> c = 8239 \<or> c = 8287 \<or> c = 12288"

definition strip :: "str \<Rightarrow> str" where
  "strip s = rev (dropWhile is_space (rev (dropWhile is_space s)))"

text \<open>
  The classes \<^verbatim>\<open>\d\<close> (decimal digits) and \<^verbatim>\<open>\w\<close> (alphanumerics and the underscore)
  of a \<^verbatim>\<open>str\<close> pattern are read from the interpreter's Unicode database. On ASCII they
  are fixed; beyond ASCII the database is a parameter \<open>U\<close> of the model. No code point is
  both a decimal digit and white space, so the digit table is not consulted on white
  space.
\<close>

record ucd =
  ucd_decimal :: "codepoint \<Rightarrow> bool"
  ucd_alnum :: "codepoint \<Rightarrow> bool"

definition is_digit :: "ucd \<Rightarrow> codepoint \<Rightarrow> bool" where
  "is_digit U c \<longleftrightarrow>
     (if c < 128 then 48 \<le> c \<and> c \<le> 57 else ucd_decimal U c \<and> \<not> is_space c)"

definition is_word :: "ucd \<Rightarrow> codepoint \<Rightarrow> bool" where
  "is_word U c \<longleftrightarrow>
     (if c < 128
      then (48 \<le> c \<and> c \<le> 57) \<or> (65 \<le> c \<and> c \<le> 90) \<or> (97 \<le> c \<and> c \<le> 122) \<or> c = 95
      else ucd_alnum U c)"

subsection \<open>The pattern \<^verbatim>\<open>LOG_RE\<close>\<close>

text \<open>
  The matcher is written in continuation-passing style, one combinator per construct
  of the pattern. A cursor is the code point before the current position (none at the
  start of the string) and the rest of the string from the position on. A combinator takes the
  continuation that matches the rest of the pattern; the first success in the order
  Python's backtracking matcher tries the alternatives is the result.
\<close>

type_synonym cursor = "codepoint option \<times> str"
type_synonym 'r cont = "cursor \<Rightarrow> 'r option"

text \<open>One code point of a class.\<close>

fun re_class :: "(codepoint \<Rightarrow> bool) \<Rightarrow> 'r cont \<Rightarrow> 'r cont" where
  "re_class P k (prev, []) = None"
| "re_class P k (prev, c # cs) = (if P c then k (Some c, cs) else None)"

text \<open>A literal string.\<close>

fun re_lit :: "str \<Rightarrow> 'r cont \<Rightarrow> 'r cont" where
  "re_lit [] k = k"
| "re_lit (x # xs) k = re_class (\<lambda>c. c = x) (re_lit xs k)"

text \<open>\<^verbatim>\<open>X{n}\<close>: exactly \<open>n\<close> code points of a class.\<close>

fun re_count :: "nat \<Rightarrow> (codepoint \<Rightarrow> bool) \<Rightarrow> 'r cont \<Rightarrow> 'r cont" where
  "re_count 0 P k = k"
| "re_count (Suc n) P k = re_class P (re_count n P k)"

text \<open>\<^verbatim>\<open>X+\<close>, greedy: the longest run first, then shorter ones.\<close>

fun re_plus :: "(codepoint \<Rightarrow> bool) \<Rightarrow> 'r cont \<Rightarrow> 'r cont" where
  "re_plus P k (prev, []) = None"
| "re_plus P k (prev, c # cs) =
     (if P c
      then (case re_plus P k (Some c, cs) of Some r \<Rightarrow> Some r | None \<Rightarrow> k (Some c, cs))
      else None)"

text \<open>\<^verbatim>\<open>X*?\<close>, lazy: the shortest run first, then longer ones.\<close>

fun re_star_lazy :: "(codepoint \<Rightarrow> bool) \<Rightarrow> 'r cont \<Rightarrow> 'r cont" where
  "re_star_lazy P k (prev, []) = k (prev, [])"
| "re_star_lazy P k (prev, c # cs) =
     (case k (prev, c # cs) of
        Some r \<Rightarrow> Some r
      | None \<Rightarrow> if P c then re_star_lazy P k (Some c, cs) else None)"

text \<open>\<^verbatim>\<open>A|B|C\<close>: the alternatives in order.\<close>

fun re_alt :: "('r cont \<Rightarrow> 'r cont) list \<Rightarrow> 'r cont \<Rightarrow> 'r cont" where
  "re_alt [] k cur = None"
| "re_alt (m # ms) k cur = (case m k cur of Some r \<Rightarrow> Some r | None \<Rightarrow> re_alt ms k cur)"

text \<open>\<^verbatim>\<open>^\<close> without \<^verbatim>\<open>re.MULTILINE\<close>: the start of the string only.\<close>

fun re_bol :: "'r cont \<Rightarrow> 'r cont" where
  "re_bol k (prev, s) = (if prev = None then k (prev, s) else None)"

text \<open>\<^verbatim>\<open>\b\<close>: exactly one of the two neighbours is a word character.\<close>

fun word_before :: "ucd \<Rightarrow> codepoint option \<Rightarrow> bool" where
  "word_before U None = False"
| "word_before U (Some c) = is_word U c"

fun word_after :: "ucd \<Rightarrow> str \<Rightarrow> bool" where
  "word_after U [] = False"
| "word_after U (c # cs) = is_word U c"

fun re_wordb :: "ucd \<Rightarrow> 'r cont \<Rightarrow> 'r cont" where
  "re_wordb U k (prev, s) =
     (if word_before U prev \<noteq> word_after U s then k (prev, s) else None)"

text \<open>
  A capturing group: the continuation receives the string the body consumed. An optional
  group \<^verbatim>\<open>(...)?\<close> is greedy: the body first, and the group unset (\<^verbatim>\<open>None\<close>) if the
  rest fails with it.
\<close>

fun re_group :: "('r cont \<Rightarrow> 'r cont) \<Rightarrow> (str \<Rightarrow> 'r cont) \<Rightarrow> 'r cont" where
  "re_group body k (prev, s) =
     body (\<lambda>(prev', s'). k (take (length s - length s') s) (prev', s')) (prev, s)"

fun re_opt_group :: "('r cont \<Rightarrow> 'r cont) \<Rightarrow> (str option \<Rightarrow> 'r cont) \<Rightarrow> 'r cont" where
  "re_opt_group body k cur =
     (case re_group body (\<lambda>g. k (Some g)) cur of Some r \<Rightarrow> Some r | None \<Rightarrow> k None cur)"

text \<open>
  \<^verbatim>\<open>Pattern.search\<close>: the first start position, from the left, at which the pattern
  matches.
\<close>

fun re_search :: "'r cont \<Rightarrow> 'r cont" where
  "re_search m (prev, []) = m (prev, [])"
| "re_search m (prev, c # cs) =
     (case m (prev, c # cs) of Some r \<Rightarrow> Some r | None \<Rightarrow> re_search m (Some c, cs))"

text \<open>
  The match object, as far as the code reads it: the named groups. The source writes
  the pattern as three adjacent literals; the model has one part for each:
  \<^verbatim>\<open>^(?P<ts>\d{4}-\d{2}-\d{2}\s+\d{2}:\d{2}:\d{2})\s+\<close>, then
  \<^verbatim>\<open>(?P<level>INFO|WARNING|ERROR)\s+\<close>, then \<^verbatim>\<open>.*?\bpath=(?P<path>\S+)?\<close>. A part
  hands the text of its group to the rest of the pattern. The dot is any code point but
  the line feed.
\<close>

record match =
  m_ts :: str
  m_level :: str
  m_path :: "str option"

definition LOG_RE_ts :: "ucd \<Rightarrow> (str \<Rightarrow> 'r cont) \<Rightarrow> 'r cont" where
  "LOG_RE_ts U k =
     re_bol (
     re_group (re_count 4 (is_digit U) \<circ> re_lit (lit ''-'') \<circ> re_count 2 (is_digit U) \<circ>
               re_lit (lit ''-'') \<circ> re_count 2 (is_digit U) \<circ> re_plus is_space \<circ>
               re_count 2 (is_digit U) \<circ> re_lit (lit '':'') \<circ> re_count 2 (is_digit U) \<circ>
               re_lit (lit '':'') \<circ> re_count 2 (is_digit U)) (\<lambda>ts.
     re_plus is_space (k ts)))"

definition LOG_RE_level :: "(str \<Rightarrow> 'r cont) \<Rightarrow> 'r cont" where
  "LOG_RE_level k =
     re_group (re_alt [re_lit (lit ''INFO''), re_lit (lit ''WARNING''), re_lit (lit ''ERROR'')])
       (\<lambda>level.
     re_plus is_space (k level))"

definition LOG_RE_path :: "ucd \<Rightarrow> (str option \<Rightarrow> 'r cont) \<Rightarrow> 'r cont" where
  "LOG_RE_path U k =
     re_star_lazy (\<lambda>c. c \<noteq> 10) (
     re_wordb U (
     re_lit (lit ''path='') (
     re_opt_group (re_plus (\<lambda>c. \<not> is_space c)) k)))"

definition LOG_RE :: "ucd \<Rightarrow> match cont" where
  "LOG_RE U =
     LOG_RE_ts U (\<lambda>ts.
     LOG_RE_level (\<lambda>level.
     LOG_RE_path U (\<lambda>path cur.
     Some \<lparr>m_ts = ts, m_level = level, m_path = path\<rparr>)))"

definition LOG_RE_search :: "ucd \<Rightarrow> str \<Rightarrow> match option" where
  "LOG_RE_search U line = re_search (LOG_RE U) (None, line)"

subsection \<open>Dictionaries and counters\<close>

text \<open>
  A \<^verbatim>\<open>dict\<close> keeps its keys in the order of their first insertion; assigning to a key
  that is present replaces the value in place. A \<^verbatim>\<open>Counter\<close> reads a missing key as 0,
  so \<^verbatim>\<open>c[k] += 1\<close> is \<open>counter_incr\<close>.
\<close>

type_synonym counter = "(str \<times> int) list"

fun dict_set :: "('k \<times> 'v) list \<Rightarrow> 'k \<Rightarrow> 'v \<Rightarrow> ('k \<times> 'v) list" where
  "dict_set [] k v = [(k, v)]"
| "dict_set ((k', v') # d) k v = (if k' = k then (k', v) # d else (k', v') # dict_set d k v)"

definition dict_get :: "('k \<times> 'v) list \<Rightarrow> 'k \<Rightarrow> 'v \<Rightarrow> 'v" where
  "dict_get d k dflt = (case map_of d k of None \<Rightarrow> dflt | Some v \<Rightarrow> v)"

definition counter_incr :: "counter \<Rightarrow> str \<Rightarrow> counter" where
  "counter_incr c k = dict_set c k (dict_get c k 0 + 1)"

text \<open>
  \<^verbatim>\<open>Counter.most_common(n)\<close> is \<^verbatim>\<open>heapq.nlargest(n, c.items(), key=itemgetter(1))\<close>,
  which the library documents as \<^verbatim>\<open>sorted(c.items(), key=itemgetter(1), reverse=True)[:n]\<close>:
  a stable sort by count, largest first, cut after \<open>n\<close> entries (none when \<open>n \<le> 0\<close>).
\<close>

definition most_common :: "int \<Rightarrow> counter \<Rightarrow> (str \<times> int) list" where
  "most_common n c = take (nat n) (sort_key (\<lambda>kv. - snd kv) c)"

subsection \<open>The scanning loop of \<^verbatim>\<open>analyze_log\<close>\<close>

record scan_state =
  level_counts :: counter
  error_paths :: counter
  total_lines :: int
  parsed_lines :: int
  invalid_lines :: int

definition init_state :: scan_state where
  "init_state = \<lparr>level_counts = [], error_paths = [], total_lines = 0, parsed_lines = 0,
     invalid_lines = 0\<rparr>"

text \<open>
  The body of \<^verbatim>\<open>for line in f\<close>. The test \<^verbatim>\<open>level == "ERROR" and path\<close> is true when
  the group is set and not the empty string.
\<close>

definition scan_line :: "ucd \<Rightarrow> scan_state \<Rightarrow> str \<Rightarrow> scan_state" where
  "scan_line U st raw =
     (let st1 = st\<lparr>total_lines := total_lines st + 1\<rparr>;
          line = strip raw
      in if line = [] then st1
         else case LOG_RE_search U line of
                None \<Rightarrow> st1\<lparr>invalid_lines := invalid_lines st1 + 1\<rparr>
              | Some m \<Rightarrow>
                  (let st2 = st1\<lparr>parsed_lines := parsed_lines st1 + 1\<rparr>;
                       level = m_level m;
                       path = m_path m;
                       st3 = st2\<lparr>level_counts := counter_incr (level_counts st2) level\<rparr>
                   in case path of
                        None \<Rightarrow> st3
                      | Some p \<Rightarrow>
                          if level = lit ''ERROR'' \<and> p \<noteq> []
                          then st3\<lparr>error_paths := counter_incr (error_paths st3) p\<rparr>
                          else st3))"

definition scan_lines :: "ucd \<Rightarrow> str list \<Rightarrow> scan_state" where
  "scan_lines U ls = foldl (scan_line U) init_state ls"

subsection \<open>The report\<close>

record report =
  generated_at :: str
  rep_file :: str
  rep_total_lines :: int
  rep_parsed_lines :: int
  rep_invalid_lines :: int
  rep_level_counts :: "(str \<times> int) list"
  top_error_paths :: "(str \<times> int) list"

definition build_report :: "str \<Rightarrow> str \<Rightarrow> int \<Rightarrow> scan_state \<Rightarrow> report" where
  "build_report now file_path top_n st =
     \<lparr>generated_at = now @ lit ''Z'',
      rep_file = file_path,
      rep_total_lines = total_lines st,
      rep_parsed_lines = parsed_lines st,
      rep_invalid_lines = invalid_lines st,
      rep_level_counts = level_counts st,
      top_error_paths = most_common top_n (error_paths st)\<rparr>"

subsection \<open>Files, decoding and lines\<close>

text \<open>
  The world the program runs in: the file system (a path names a regular file with its
  bytes, a directory, or nothing), the value \<^verbatim>\<open>datetime.utcnow().isoformat()\<close> returns,
  what has been printed, and the paths handed to \<^verbatim>\<open>webbrowser.open\<close>. Paths are the strings
  the program uses, relative to its working directory; permissions and device errors
  of the operating system are outside the model.
\<close>

datatype node = File "byte list" | Dir

record world =
  fs :: "str \<Rightarrow> node option"
  utcnow :: str
  stdout :: str
  browser :: "str list"

datatype error =
    FileNotFoundError str
  | FileExistsError str
  | IsADirectoryError str
  | UnicodeDecodeError
  | UnicodeEncodeError

fun isfile :: "world \<Rightarrow> str \<Rightarrow> bool" where
  "isfile w p = (case fs w p of Some (File bs) \<Rightarrow> True | _ \<Rightarrow> False)"

text \<open>
  The UTF-8 decoder, after CPython's: \<open>utf8_first b rest\<close> reads the character that
  starts with byte \<open>b\<close> and returns it with the number of bytes of \<open>rest\<close> it used, or
  no character and the number of further bytes that belong to the ill-formed
  sequence. Overlong forms, surrogates and values above \<^verbatim>\<open>U+10FFFF\<close> are ill-formed.
  A sequence cut off by the end of the data is ill-formed as a whole.
\<close>

definition is_cont :: "nat \<Rightarrow> bool" where
  "is_cont b \<longleftrightarrow> 128 \<le> b \<and> b < 192"

fun utf8_first :: "nat \<Rightarrow> nat list \<Rightarrow> codepoint option \<times> nat" where
  "utf8_first b rest =
     (if b < 128 then (Some b, 0)
      else if b < 194 then (None, 0)
      else if b < 224 then
        (case rest of
           [] \<Rightarrow> (None, 0)
         | b1 # r1 \<Rightarrow>
             if is_cont b1 then (Some ((b - 192) * 64 + (b1 - 128)), 1) else (None, 0))
      else if b < 240 then
        (case rest of
           [] \<Rightarrow> (None, 0)
         | b1 # r1 \<Rightarrow>
             if \<not> is_cont b1 \<or> (b = 224 \<and> b1 < 160) \<or> (b = 237 \<and> 160 \<le> b1) then (None, 0)
             else (case r1 of
                     [] \<Rightarrow> (None, 1)
                   | b2 # r2 \<Rightarrow>
                       if is_cont b2
                       then (Some ((b - 224) * 4096 + (b1 - 128) * 64 + (b2 - 128)), 2)
                       else (None, 1)))
      else if b < 245 then
        (case rest of
           [] \<Rightarrow> (None, 0)
         | b1 # r1 \<Rightarrow>
             if \<not> is_cont b1 \<or> (b = 240 \<and> b1 < 144) \<or> (b = 244 \<and> 144 \<le> b1) then (None, 0)
             else (case r1 of
                     [] \<Rightarrow> (None, 1)
                   | b2 # r2 \<Rightarrow>
                       if \<not> is_cont b2 then (None, 1)
                       else (case r2 of
                               [] \<Rightarrow> (None, 2)
                             | b3 # r3 \<Rightarrow>
                                 if is_cont b3
                                 then (Some ((b - 240) * 262144 + (b1 - 128) * 4096 +
                                             (b2 - 128) * 64 + (b3 - 128)), 3)
                                 else (None, 2))))
      else (None, 0))"

text \<open>
  The error handler of \<^verbatim>\<open>open(..., errors=...)\<close>: \<^verbatim>\<open>"strict"\<close> raises at the first
  ill-formed sequence, \<^verbatim>\<open>"replace"\<close> puts \<^verbatim>\<open>U+FFFD\<close> in its place and goes on.
\<close>

datatype errors_mode = Strict | Replace

function utf8_decode :: "errors_mode \<Rightarrow> nat list \<Rightarrow> error + str" where
  "utf8_decode e [] = Inr []"
| "utf8_decode e (b # rest) =
     (case utf8_first b rest of
        (Some c, n) \<Rightarrow>
          (case utf8_decode e (drop n rest) of Inl err \<Rightarrow> Inl err | Inr s \<Rightarrow> Inr (c # s))
      | (None, n) \<Rightarrow>
          (case e of
             Strict \<Rightarrow> Inl UnicodeDecodeError
           | Replace \<Rightarrow>
               (case utf8_decode e (drop n rest) of
                  Inl err \<Rightarrow> Inl err
                | Inr s \<Rightarrow> Inr (65533 # s))))"
  by pat_completeness auto
termination
  by (relation "measure (\<lambda>(e, bs). length bs)") auto

text \<open>
  Text mode with the default \<^verbatim>\<open>newline=None\<close>: \<^verbatim>\<open>\r\n\<close> and a lone \<^verbatim>\<open>\r\<close> are read as
  \<^verbatim>\<open>\n\<close>. Iterating over the file yields the lines, each with its \<^verbatim>\<open>\n\<close>; a last line
  without one is yielded as it is.
\<close>

fun universal_newlines :: "str \<Rightarrow> str" where
  "universal_newlines [] = []"
| "universal_newlines [c] = (if c = 13 then [10] else [c])"
| "universal_newlines (c # d # cs) =
     (if c = 13 \<and> d = 10 then 10 # universal_newlines cs
      else if c = 13 then 10 # universal_newlines (d # cs)
      else c # universal_newlines (d # cs))"

fun lines_from :: "str \<Rightarrow> str \<Rightarrow> str list" where
  "lines_from cur [] = (if cur = [] then [] else [rev cur])"
| "lines_from cur (c # cs) =
     (if c = 10 then rev (c # cur) # lines_from [] cs else lines_from (c # cur) cs)"

definition read_lines :: "errors_mode \<Rightarrow> byte list \<Rightarrow> error + str list" where
  "read_lines e bs =
     (case utf8_decode e (map unat bs) of
        Inl err \<Rightarrow> Inl err
      | Inr s \<Rightarrow> Inr (lines_from [] (universal_newlines s)))"

subsection \<open>\<^verbatim>\<open>analyze_log\<close>\<close>

definition analyze_log :: "ucd \<Rightarrow> world \<Rightarrow> str \<Rightarrow> int \<Rightarrow> error + report" where
  "analyze_log U w file_path top_n =
     (if \<not> isfile w file_path
      then Inl (FileNotFoundError (lit ''Log file not found: '' @ file_path))
      else case fs w file_path of
             None \<Rightarrow> Inl (FileNotFoundError file_path)
           | Some Dir \<Rightarrow> Inl (IsADirectoryError file_path)
           | Some (File bs) \<Rightarrow>
               (case read_lines Replace bs of
                  Inl err \<Rightarrow> Inl err
                | Inr ls \<Rightarrow> Inr (build_report (utcnow w) file_path top_n (scan_lines U ls))))"

subsection \<open>Printing and writing\<close>

text \<open>\<^verbatim>\<open>str(n)\<close> for an integer, as an f-string renders it.\<close>

function digits :: "nat \<Rightarrow> str" where
  "digits n = (if n < 10 then [48 + n] else digits (n div 10) @ [48 + n mod 10])"
  by pat_completeness auto
termination
  by (relation "measure id") auto

declare digits.simps [simp del]

definition str_int :: "int \<Rightarrow> str" where
  "str_int i = (if i < 0 then 45 # digits (nat (- i)) else digits (nat i))"

text \<open>\<^verbatim>\<open>print(s)\<close> writes the string and a line feed.\<close>

definition print :: "world \<Rightarrow> str \<Rightarrow> world" where
  "print w s = w\<lparr>stdout := stdout w @ s @ [10]\<rparr>"

definition LEVELS :: "str list" where
  "LEVELS = [lit ''INFO'', lit ''WARNING'', lit ''ERROR'']"

definition print_summary :: "world \<Rightarrow> report \<Rightarrow> world" where
  "print_summary w r =
     (let w1 = print w (10 # lit ''=== Support Toolkit Report ==='');
          w2 = print w1 (lit ''File: '' @ rep_file r);
          w3 = print w2 (lit ''Generated: '' @ generated_at r);
          w4 = print w3 (lit ''Total lines: '' @ str_int (rep_total_lines r));
          w5 = print w4 (lit ''Parsed lines: '' @ str_int (rep_parsed_lines r));
          w6 = print w5 (lit ''Invalid lines: '' @ str_int (rep_invalid_lines r));
          w7 = print w6 (10 # lit ''Level counts:'');
          w8 = foldl (\<lambda>v lvl. print v (lit ''  '' @ lvl @ lit '': '' @
                        str_int (dict_get (rep_level_counts r) lvl 0))) w7 LEVELS;
          w9 = print w8 (10 # lit ''Top ERROR paths:'');
          top = top_error_paths r
      in if top = [] then print w9 (lit ''  (none)'')
         else foldl (\<lambda>v (path, cnt). print v (lit ''  '' @ path @ lit '': '' @ str_int cnt))
                w9 top)"

text \<open>
  The text \<^verbatim>\<open>save_html_report\<close> builds: the head of the page up to the heading row of the
  table, one row for each entry of \<open>top_error_paths\<close>, and the closing tags.
\<close>

definition html_head :: "report \<Rightarrow> str" where
  "html_head r =
     [10] @
     lit ''    <html>'' @ [10] @
     lit ''    <head>'' @ [10] @
     lit ''        <title>Support Toolkit Report</title>'' @ [10] @
     lit ''        <style>'' @ [10] @
     lit ''            body { font-family: Arial; margin: 40px; }'' @ [10] @
     lit ''            table { border-collapse: collapse; width: 50%; }'' @ [10] @
     lit ''            th, td { border: 1px solid #ccc; padding: 8px; text-align: left; }'' @ [10] @
     lit ''            th { background-color: #f2f2f2; }'' @ [10] @
     lit ''            .error { color: red; }'' @ [10] @
     lit ''        </style>'' @ [10] @
     lit ''    </head>'' @ [10] @
     lit ''    <body>'' @ [10] @
     lit ''        <h1>Support Toolkit Report</h1>'' @ [10] @
     lit ''        <p><strong>File:</strong> '' @ rep_file r @ lit ''</p>'' @ [10] @
     lit ''        <p><strong>Total lines:</strong> '' @ str_int (rep_total_lines r) @
       lit ''</p>'' @ [10] @
     lit ''        <p><strong>Parsed lines:</strong> '' @ str_int (rep_parsed_lines r) @
       lit ''</p>'' @ [10] @
     [10] @
     lit ''        <h2>Log Levels</h2>'' @ [10] @
     lit ''        <ul>'' @ [10] @
     lit ''            <li>INFO: '' @ str_int (dict_get (rep_level_counts r) (lit ''INFO'') 0) @
       lit ''</li>'' @ [10] @
     lit ''            <li>WARNING: '' @
       str_int (dict_get (rep_level_counts r) (lit ''WARNING'') 0) @ lit ''</li>'' @ [10] @
     lit ''            <li class='' @ [34] @ lit ''error'' @ [34] @ lit ''>ERROR: '' @
       str_int (dict_get (rep_level_counts r) (lit ''ERROR'') 0) @ lit ''</li>'' @ [10] @
     lit ''        </ul>'' @ [10] @
     [10] @
     lit ''        <h2>Top ERROR Paths</h2>'' @ [10] @
     lit ''        <table>'' @ [10] @
     lit ''            <tr><th>Path</th><th>Count</th></tr>'' @ [10] @
     lit ''    ''"

definition html_row :: "str \<times> int \<Rightarrow> str" where
  "html_row = (\<lambda>(path, cnt).
     lit ''<tr><td>'' @ path @ lit ''</td><td>'' @ str_int cnt @ lit ''</td></tr>'')"

definition html_tail :: str where
  "html_tail =
     [10] @
     lit ''        </table>'' @ [10] @
     lit ''    </body>'' @ [10] @
     lit ''    </html>'' @ [10] @
     lit ''    ''"

definition html_content :: "report \<Rightarrow> str" where
  "html_content r =
     foldl (\<lambda>acc row. acc @ html_row row) (html_head r) (top_error_paths r) @ html_tail"

text \<open>
  Writing a text file: \<^verbatim>\<open>open(p, "w", encoding="utf-8")\<close> creates or empties the file (and
  fails on a directory), then the text is encoded and written. A lone surrogate has no
  UTF-8 form.
\<close>

fun utf8_encode_char :: "codepoint \<Rightarrow> (byte list) option" where
  "utf8_encode_char c =
     (if c < 128 then Some [of_nat c]
      else if c < 2048 then Some [of_nat (192 + c div 64), of_nat (128 + c mod 64)]
      else if c < 65536 then
        (if 55296 \<le> c \<and> c < 57344 then None
         else Some [of_nat (224 + c div 4096), of_nat (128 + c div 64 mod 64),
                    of_nat (128 + c mod 64)])
      else if c < 1114112 then
        Some [of_nat (240 + c div 262144), of_nat (128 + c div 4096 mod 64),
              of_nat (128 + c div 64 mod 64), of_nat (128 + c mod 64)]
      else None)"

fun utf8_encode :: "str \<Rightarrow> error + byte list" where
  "utf8_encode [] = Inr []"
| "utf8_encode (c # cs) =
     (case utf8_encode_char c of
        None \<Rightarrow> Inl UnicodeEncodeError
      | Some bs \<Rightarrow> (case utf8_encode cs of Inl e \<Rightarrow> Inl e | Inr rest \<Rightarrow> Inr (bs @ rest)))"

definition write_text :: "world \<Rightarrow> str \<Rightarrow> str \<Rightarrow> (error + unit) \<times> world" where
  "write_text w p s =
     (case fs w p of
        Some Dir \<Rightarrow> (Inl (IsADirectoryError p), w)
      | _ \<Rightarrow>
          (let w1 = w\<lparr>fs := (fs w)(p \<mapsto> File [])\<rparr>
           in case utf8_encode s of
                Inl e \<Rightarrow> (Inl e, w1)
              | Inr bs \<Rightarrow> (Inr (), w1\<lparr>fs := (fs w1)(p \<mapsto> File bs)\<rparr>)))"

text \<open>\<^verbatim>\<open>os.makedirs("output", exist_ok=True)\<close>.\<close>

definition ensure_output_dir :: "world \<Rightarrow> (error + unit) \<times> world" where
  "ensure_output_dir w =
     (case fs w (lit ''output'') of
        None \<Rightarrow> (Inr (), w\<lparr>fs := (fs w)(lit ''output'' \<mapsto> Dir)\<rparr>)
      | Some Dir \<Rightarrow> (Inr (), w)
      | Some (File bs) \<Rightarrow> (Inl (FileExistsError (lit ''output'')), w))"

text \<open>
  \<^verbatim>\<open>save_report\<close> writes \<^verbatim>\<open>json.dump(report, f, indent=2)\<close>. No property below depends
  on the JSON text, so the serialiser is a parameter \<open>dumps\<close>.
\<close>

definition save_report :: "(report \<Rightarrow> str) \<Rightarrow> world \<Rightarrow> report \<Rightarrow> (error + str) \<times> world" where
  "save_report dumps w r =
     (case ensure_output_dir w of
        (Inl e, w1) \<Rightarrow> (Inl e, w1)
      | (Inr u, w1) \<Rightarrow>
          (let out_path = lit ''output/report.json''
           in case write_text w1 out_path (dumps r) of
                (Inl e, w2) \<Rightarrow> (Inl e, w2)
              | (Inr u', w2) \<Rightarrow> (Inr out_path, w2)))"

definition save_html_report :: "world \<Rightarrow> report \<Rightarrow> (error + str) \<times> world" where
  "save_html_report w r =
     (case ensure_output_dir w of
        (Inl e, w1) \<Rightarrow> (Inl e, w1)
      | (Inr u, w1) \<Rightarrow>
          (let out_path = lit ''output/report.html''
           in case write_text w1 out_path (html_content r) of
                (Inl e, w2) \<Rightarrow> (Inl e, w2)
              | (Inr u', w2) \<Rightarrow> (Inr out_path, w2\<lparr>browser := browser w2 @ [out_path]\<rparr>)))"

subsection \<open>\<^verbatim>\<open>main\<close>\<close>

text \<open>
  \<^verbatim>\<open>main\<close> with the parsed arguments \<^verbatim>\<open>--file\<close> and \<^verbatim>\<open>--top\<close>. No exception is caught:
  one that is raised ends the run, and the interpreter exits with status 1.
\<close>

definition main :: "ucd \<Rightarrow> (report \<Rightarrow> str) \<Rightarrow> world \<Rightarrow> str \<Rightarrow> int \<Rightarrow> (error + unit) \<times> world" where
  "main U dumps w file_arg top_arg =
     (case analyze_log U w file_arg top_arg of
        Inl e \<Rightarrow> (Inl e, w)
      | Inr r \<Rightarrow>
          (let w1 = print_summary w r
           in case save_report dumps w1 r of
                (Inl e, w2) \<Rightarrow> (Inl e, w2)
              | (Inr out_path, w2) \<Rightarrow>
                  (let w3 = print w2 (10 # lit ''Saved JSON report to: '' @ out_path @ [10])
                   in case save_html_report w3 r of
                        (Inl e, w4) \<Rightarrow> (Inl e, w4)
                      | (Inr out_path', w4) \<Rightarrow>
                          (Inr (),
                           print w4 (10 # lit ''Saved HTML report to: '' @ out_path' @ [10])))))"

fun exit_status :: "(error + unit) \<times> world \<Rightarrow> int" where
  "exit_status (Inl e, w) = 1"
| "exit_status (Inr u, w) = 0"

subsection \<open>What the lines contribute\<close>

text \<open>
  Descriptions of the loop's counters to state properties against, not part of the
  program: the match of a line that is not blank, the level it counts, the path it adds
  to \<^verbatim>\<open>error_paths\<close>, and the table that lists each key of a sequence once, in the order
  of first appearance, with the number of times it appears.
\<close>

definition parsed :: "ucd \<Rightarrow> str \<Rightarrow> match option" where
  "parsed U raw = (if strip raw = [] then None else LOG_RE_search U (strip raw))"

definition error_event :: "ucd \<Rightarrow> str \<Rightarrow> str option" where
  "error_event U raw =
     (case parsed U raw of
        None \<Rightarrow> None
      | Some m \<Rightarrow>
          (case m_path m of
             None \<Rightarrow> None
           | Some p \<Rightarrow> if m_level m = lit ''ERROR'' \<and> p \<noteq> [] then Some p else None))"

definition level_events :: "ucd \<Rightarrow> str list \<Rightarrow> str list" where
  "level_events U ls = List.map_filter (\<lambda>raw. map_option m_level (parsed U raw)) ls"

definition error_events :: "ucd \<Rightarrow> str list \<Rightarrow> str list" where
  "error_events U ls = List.map_filter (error_event U) ls"

definition first_seen :: "'a list \<Rightarrow> 'a list" where
  "first_seen ks = rev (remdups (rev ks))"

definition tally :: "str list \<Rightarrow> counter" where
  "tally ks = map (\<lambda>k. (k, int (count_list ks k))) (first_seen ks)"

text \<open>
  To describe matched text: the code point before the cursor once \<open>xs\<close> has been
  consumed, a non-empty run of white space, a run of \<open>n\<close> digits, and the token that
  follows a \<^verbatim>\<open>path=\<close> marker (none when the marker is followed by white space or by the
  end of the line).
\<close>

definition after :: "codepoint option \<Rightarrow> str \<Rightarrow> codepoint option" where
  "after prev xs = (if xs = [] then prev else Some (last xs))"

definition spaces :: "str \<Rightarrow> bool" where
  "spaces ws \<longleftrightarrow> ws \<noteq> [] \<and> list_all is_space ws"

definition digit_run :: "ucd \<Rightarrow> nat \<Rightarrow> str \<Rightarrow> bool" where
  "digit_run U n xs \<longleftrightarrow> length xs = n \<and> list_all (is_digit U) xs"

definition path_token :: "str \<Rightarrow> str option" where
  "path_token s =
     (if s = [] \<or> is_space (hd s) then None else Some (takeWhile (\<lambda>c. \<not> is_space c) s))"

text \<open>
  A part of a pattern passes on: when the match succeeds, the part has consumed a prefix
  of the text and the rest of the pattern has succeeded on what remains.
\<close>

definition passes :: "('r cont \<Rightarrow> 'r cont) \<Rightarrow> bool" where
  "passes T \<longleftrightarrow>
     (\<forall>k prev s r. T k (prev, s) = Some r \<longrightarrow>
        (\<exists>xs s'. s = xs @ s' \<and> k (after prev xs, s') = Some r))"

subsection \<open>Example inputs\<close>

text \<open>
  The database that knows no digit or letter beyond ASCII, a three-line log file (an
  \<^verbatim>\<open>ERROR\<close> line with a path, an \<^verbatim>\<open>INFO\<close> line with a path, a line that is no log
  line), and two worlds that hold it under different names at different times.
\<close>

definition ascii_ucd :: ucd where
  "ascii_ucd = \<lparr>ucd_decimal = (\<lambda>c. False), ucd_alnum = (\<lambda>c. False)\<rparr>"

definition sample_bytes :: "byte list" where
  "sample_bytes = map of_char
     (''2026-02-18 07:01:05 ERROR service=api msg=x path=/login status=500'' @ [CHR 0x0A] @
      ''2026-02-18 07:01:06 INFO path=/home'' @ [CHR 0x0A] @
      ''not a log line'' @ [CHR 0x0A])"

definition sample_world :: world where
  "sample_world = \<lparr>fs = [lit ''app.log'' \<mapsto> File sample_bytes],
     utcnow = lit ''2026-02-18T08:00:00'', stdout = [], browser = []\<rparr>"

definition other_world :: world where
  "other_world = \<lparr>fs = [lit ''copy.log'' \<mapsto> File sample_bytes],
     utcnow = lit ''2026-02-19T09:30:00.125000'', stdout = [], browser = []\<rparr>"

text \<open>
  A log file for the ranking: \<^verbatim>\<open>ERROR\<close> lines with the paths \<^verbatim>\<open>/b\<close>, \<^verbatim>\<open>/a\<close>, \<^verbatim>\<open>/c\<close>,
  \<^verbatim>\<open>/a\<close>, \<^verbatim>\<open>/c\<close>, \<^verbatim>\<open>/d\<close> in this order, and between them an \<^verbatim>\<open>INFO\<close> line with the
  path \<^verbatim>\<open>/b\<close>. Two paths occur twice and two once, and the path seen first is not the
  most frequent one.
\<close>

definition ranking_bytes :: "byte list" where
  "ranking_bytes = map of_char
     (''2026-02-18 07:01:01 ERROR path=/b'' @ [CHR 0x0A] @
      ''2026-02-18 07:01:02 ERROR path=/a'' @ [CHR 0x0A] @
      ''2026-02-18 07:01:03 ERROR path=/c'' @ [CHR 0x0A] @
      ''2026-02-18 07:01:04 INFO path=/b'' @ [CHR 0x0A] @
      ''2026-02-18 07:01:05 ERROR path=/a'' @ [CHR 0x0A] @
      ''2026-02-18 07:01:06 ERROR path=/c'' @ [CHR 0x0A] @
      ''2026-02-18 07:01:07 ERROR path=/d'' @ [CHR 0x0A])"

definition ranking_world :: world where
  "ranking_world = \<lparr>fs = [lit ''rank.log'' \<mapsto> File ranking_bytes],
     utcnow = lit ''2026-02-18T08:00:00'', stdout = [], browser = []\<rparr>"

text \<open>
  A world with an empty log file and the report \<^verbatim>\<open>analyze_log\<close> builds from it, and a
  world whose log file is not UTF-8.
\<close>

definition empty_world :: world where
  "empty_world = \<lparr>fs = [lit ''empty.log'' \<mapsto> File []],
     utcnow = lit ''2026-02-18T08:00:00'', stdout = [], browser = []\<rparr>"

definition empty_report :: report where
  "empty_report = \<lparr>generated_at = lit ''2026-02-18T08:00:00Z'', rep_file = lit ''empty.log'',
     rep_total_lines = 0, rep_parsed_lines = 0, rep_invalid_lines = 0,
     rep_level_counts = [], top_error_paths = []\<rparr>"

definition binary_world :: world where
  "binary_world = \<lparr>fs = [lit ''bin.log'' \<mapsto> File [0xFF, 0xC3, 0x28, 0x0A, 0xE2, 0x82]],
     utcnow = lit ''2026-02-18T08:00:00'', stdout = [], browser = []\<rparr>"

text \<open>A world whose log file is one \<^verbatim>\<open>INFO\<close> line without a \<^verbatim>\<open>path=\<close> field.\<close>

definition nopath_bytes :: "byte list" where
  "nopath_bytes =
     map of_char (''2026-02-18 07:01:06 INFO service=api msg=started'' @ [CHR 0x0A])"

definition nopath_world :: world where
  "nopath_world = \<lparr>fs = [lit ''nopath.log'' \<mapsto> File nopath_bytes],
     utcnow = lit ''2026-02-18T08:00:00'', stdout = [], browser = []\<rparr>"

text \<open>
  A raw line whose first \<^verbatim>\<open>path=\<close> at a word boundary has an empty token; the
  \<^verbatim>\<open>path=\<close> inside \<^verbatim>\<open>xpath=\<close> before it does not stand at a word boundary.
\<close>

definition empty_token_raw :: str where
  "empty_token_raw =
     lit ''  2026-02-18 07:01:06 ERROR xpath=/a path= status=500'' @ [10]"

section \<open>Properties\<close>

subsection \<open>Auxiliary facts\<close>

lemma re_count_numeral [simp]:
  "re_count (numeral n) P k = re_class P (re_count (pred_numeral n) P k)"
  by (simp add: numeral_eq_Suc)

lemma sum_counter_incr:
  "sum_list (map snd (counter_incr c k)) = sum_list (map snd c) + 1"
  unfolding counter_incr_def dict_get_def
  by (induction c) auto

lemma scan_line_total: "total_lines (scan_line U st raw) = total_lines st + 1"
  by (simp add: scan_line_def Let_def split: option.splits)

lemma scan_line_blank:
  "strip raw = [] \<Longrightarrow> scan_line U st raw = st\<lparr>total_lines := total_lines st + 1\<rparr>"
  by (simp add: scan_line_def Let_def)

lemma scan_line_nonblank:
  "strip raw \<noteq> [] \<Longrightarrow>
   parsed_lines (scan_line U st raw) + invalid_lines (scan_line U st raw) =
   parsed_lines st + invalid_lines st + 1"
  by (simp add: scan_line_def Let_def split: option.splits)

lemma scan_line_level_sum:
  "sum_list (map snd (level_counts (scan_line U st raw))) - parsed_lines (scan_line U st raw) =
   sum_list (map snd (level_counts st)) - parsed_lines st"
  by (simp add: scan_line_def Let_def sum_counter_incr split: option.splits)

lemma foldl_total:
  "total_lines (foldl (scan_line U) st ls) = total_lines st + int (length ls)"
  by (induction ls arbitrary: st) (simp_all add: scan_line_total)

lemma foldl_nonblank:
  "parsed_lines (foldl (scan_line U) st ls) + invalid_lines (foldl (scan_line U) st ls) =
   parsed_lines st + invalid_lines st + int (length (filter (\<lambda>l. strip l \<noteq> []) ls))"
proof (induction ls arbitrary: st)
  case Nil
  then show ?case by simp
next
  case (Cons l ls)
  show ?case
  proof (cases "strip l = []")
    case True
    then show ?thesis
      using Cons [of "scan_line U st l"] by (simp add: scan_line_blank)
  next
    case False
    then show ?thesis
      using Cons [of "scan_line U st l"] scan_line_nonblank [OF False, of U st] by simp
  qed
qed

lemma foldl_level_sum:
  "sum_list (map snd (level_counts (foldl (scan_line U) st ls))) -
     parsed_lines (foldl (scan_line U) st ls) =
   sum_list (map snd (level_counts st)) - parsed_lines st"
  by (induction ls arbitrary: st) (simp_all add: scan_line_level_sum)

lemma length_filter_split:
  "length xs = length (filter P xs) + length (filter (\<lambda>x. \<not> P x) xs)"
  by (induction xs) auto

lemma utf8_decode_replace_total: "\<exists>s. utf8_decode Replace bs = Inr s"
proof (induction "length bs" arbitrary: bs rule: less_induct)
  case less
  show ?case
  proof (cases bs)
    case Nil
    then show ?thesis by simp
  next
    case (Cons b rest)
    obtain r n where fr: "utf8_first b rest = (r, n)"
      by (cases "utf8_first b rest")
    have "length (drop n rest) < length bs"
      using Cons by simp
    from less [OF this] obtain s where "utf8_decode Replace (drop n rest) = Inr s"
      by blast
    then show ?thesis
      using Cons fr by (cases r) (simp_all del: utf8_first.simps)
  qed
qed

lemma read_lines_replace_total: "\<exists>ls. read_lines Replace bs = Inr ls"
proof -
  obtain s where "utf8_decode Replace (map unat bs) = Inr s"
    using utf8_decode_replace_total by blast
  then show ?thesis by (simp add: read_lines_def)
qed

lemma analyze_log_File:
  assumes "fs w file_path = Some (File bs)"
  shows "\<exists>ls. read_lines Replace bs = Inr ls \<and>
           analyze_log U w file_path top_n =
             Inr (build_report (utcnow w) file_path top_n (scan_lines U ls))"
proof -
  obtain ls where "read_lines Replace bs = Inr ls"
    using read_lines_replace_total by blast
  then show ?thesis using assms by (simp add: analyze_log_def)
qed

lemma sample_world_file: "fs sample_world (lit ''app.log'') = Some (File sample_bytes)"
  by (simp add: sample_world_def)

lemma other_world_file: "fs other_world (lit ''copy.log'') = Some (File sample_bytes)"
  by (simp add: other_world_def)

lemma ranking_world_file: "fs ranking_world (lit ''rank.log'') = Some (File ranking_bytes)"
  by (simp add: ranking_world_def)

lemma first_seen_snoc:
  "first_seen (ks @ [k]) = (if k \<in> set ks then first_seen ks else first_seen ks @ [k])"
  by (simp add: first_seen_def)

lemma set_first_seen [simp]: "set (first_seen ks) = set ks"
  by (simp add: first_seen_def)

lemma distinct_first_seen [simp]: "distinct (first_seen ks)"
  by (simp add: first_seen_def)

lemma dict_get_tabulate:
  "dict_get (map (\<lambda>x. (x, f x)) xs) k d = (if k \<in> set xs then f k else d)"
  by (induction xs) (auto simp: dict_get_def)

lemma dict_set_tabulate_in:
  "distinct xs \<Longrightarrow> k \<in> set xs \<Longrightarrow>
   dict_set (map (\<lambda>x. (x, f x)) xs) k v = map (\<lambda>x. (x, if x = k then v else f x)) xs"
  by (induction xs) auto

lemma dict_set_tabulate_out:
  "k \<notin> set xs \<Longrightarrow> dict_set (map (\<lambda>x. (x, f x)) xs) k v = map (\<lambda>x. (x, f x)) xs @ [(k, v)]"
  by (induction xs) auto

lemma counter_incr_tally: "counter_incr (tally ks) k = tally (ks @ [k])"
proof (cases "k \<in> set ks")
  case True
  then show ?thesis
    by (simp add: counter_incr_def tally_def dict_get_tabulate dict_set_tabulate_in
        first_seen_snoc)
next
  case False
  then show ?thesis
    by (auto simp: counter_incr_def tally_def dict_get_tabulate dict_set_tabulate_out
        first_seen_snoc)
qed

lemma foldl_counter_incr_tally: "foldl counter_incr (tally js) ks = tally (js @ ks)"
  by (induction ks arbitrary: js) (simp_all add: counter_incr_tally)

lemma tally_Nil: "tally [] = []"
  by (simp add: tally_def first_seen_def)

lemma scan_line_level_counts:
  "level_counts (scan_line U st raw) =
     (case parsed U raw of
        None \<Rightarrow> level_counts st
      | Some m \<Rightarrow> counter_incr (level_counts st) (m_level m))"
  by (simp add: scan_line_def parsed_def Let_def split: option.splits)

lemma scan_line_error_paths:
  "error_paths (scan_line U st raw) =
     (case error_event U raw of
        None \<Rightarrow> error_paths st
      | Some p \<Rightarrow> counter_incr (error_paths st) p)"
  by (simp add: scan_line_def parsed_def error_event_def Let_def split: option.splits)

lemma foldl_level_counts:
  "level_counts (foldl (scan_line U) st ls) =
     foldl counter_incr (level_counts st) (level_events U ls)"
  by (induction ls arbitrary: st)
     (simp_all add: level_events_def scan_line_level_counts
        split: option.splits)

lemma foldl_error_paths:
  "error_paths (foldl (scan_line U) st ls) =
     foldl counter_incr (error_paths st) (error_events U ls)"
  by (induction ls arbitrary: st)
     (simp_all add: error_events_def scan_line_error_paths
        split: option.splits)

lemma scan_lines_level_counts: "level_counts (scan_lines U ls) = tally (level_events U ls)"
  using foldl_counter_incr_tally [of "[]" "level_events U ls"]
  by (simp add: scan_lines_def foldl_level_counts init_state_def tally_Nil)

lemma scan_lines_error_paths: "error_paths (scan_lines U ls) = tally (error_events U ls)"
  using foldl_counter_incr_tally [of "[]" "error_events U ls"]
  by (simp add: scan_lines_def foldl_error_paths init_state_def tally_Nil)

lemma most_common_sorted_stable:
  "\<exists>rest. mset (most_common n c @ rest) = mset c \<and>
          sorted_wrt (\<lambda>a b. snd b \<le> snd a) (most_common n c @ rest) \<and>
          (\<forall>k. filter (\<lambda>e. snd e = k) (most_common n c @ rest) = filter (\<lambda>e. snd e = k) c)"
proof -
  let ?f = "\<lambda>kv :: str \<times> int. - snd kv"
  let ?s = "sort_key ?f c"
  have a: "most_common n c @ drop (nat n) ?s = ?s"
    by (simp add: most_common_def)
  have b: "mset ?s = mset c" by simp
  have "sorted (map ?f ?s)" by (rule sorted_sort_key)
  then have c: "sorted_wrt (\<lambda>a b. snd b \<le> snd a) ?s"
    by (simp add: sorted_map)
  have d: "filter (\<lambda>e. snd e = k) ?s = filter (\<lambda>e. snd e = k) c" for k
  proof -
    have "filter (\<lambda>e. ?f e = - k) ?s = filter (\<lambda>e. ?f e = - k) c"
      by (rule sort_key_stable)
    then show ?thesis by simp
  qed
  show ?thesis
    using a b c d by (intro exI [of _ "drop (nat n) ?s"]) simp
qed

subsection \<open>Facts about the matcher\<close>

lemma after_Nil [simp]: "after prev [] = prev"
  by (simp add: after_def)

lemma after_Cons [simp]: "after prev (x # xs) = after (Some x) xs"
  by (simp add: after_def)

lemma after_append [simp]: "after prev (xs @ ys) = after (after prev xs) ys"
  by (simp add: after_def)

lemma re_class_SomeE:
  assumes "re_class P k (prev, s) = Some r"
  obtains c cs where "s = c # cs" "P c" "k (Some c, cs) = Some r"
  using assms by (cases s) (auto split: if_splits)

lemma re_lit_SomeE:
  assumes "re_lit xs k (prev, s) = Some r"
  obtains s' where "s = xs @ s'" "k (after prev xs, s') = Some r"
  using assms
proof (induction xs arbitrary: prev s thesis)
  case Nil
  then show ?case by simp
next
  case (Cons x xs)
  from Cons.prems(2) obtain cs where s: "s = x # cs" and k: "re_lit xs k (Some x, cs) = Some r"
    by (auto elim!: re_class_SomeE)
  from Cons.IH [OF _ k] obtain s' where "cs = xs @ s'" "k (after (Some x) xs, s') = Some r"
    by blast
  with s Cons.prems(1) show ?case by simp
qed

lemma re_count_SomeE:
  assumes "re_count n P k (prev, s) = Some r"
  obtains xs s' where "s = xs @ s'" "length xs = n" "list_all P xs"
    "k (after prev xs, s') = Some r"
  using assms
proof (induction n arbitrary: prev s thesis)
  case 0
  then show ?case by simp
next
  case (Suc n)
  from Suc.prems(2) obtain c cs where s: "s = c # cs" "P c"
    and k: "re_count n P k (Some c, cs) = Some r"
    by (auto elim!: re_class_SomeE)
  from Suc.IH [OF _ k] obtain xs s' where "cs = xs @ s'" "length xs = n" "list_all P xs"
    "k (after (Some c) xs, s') = Some r"
    by blast
  with s Suc.prems(1) [of "c # xs" s'] show ?case by simp
qed

lemma re_plus_SomeE:
  assumes "re_plus P k (prev, s) = Some r"
  obtains xs s' where "s = xs @ s'" "xs \<noteq> []" "list_all P xs"
    "k (after prev xs, s') = Some r"
  using assms
proof (induction s arbitrary: prev thesis)
  case Nil
  then show ?case by simp
next
  case (Cons c cs)
  from Cons.prems(2) have Pc: "P c"
    by (simp split: if_splits)
  show ?case
  proof (cases "re_plus P k (Some c, cs)")
    case None
    with Cons.prems(2) Pc have "k (Some c, cs) = Some r" by simp
    with Cons.prems(1) [of "[c]" cs] Pc show ?thesis by simp
  next
    case (Some r')
    with Cons.prems(2) Pc have "re_plus P k (Some c, cs) = Some r" by simp
    from Cons.IH [OF _ this] obtain xs s' where "cs = xs @ s'" "xs \<noteq> []" "list_all P xs"
      "k (after (Some c) xs, s') = Some r"
      by blast
    with Cons.prems(1) [of "c # xs" s'] Pc show ?thesis by simp
  qed
qed

lemma re_star_lazy_SomeE:
  assumes "re_star_lazy P k (prev, s) = Some r"
  obtains xs s' where "s = xs @ s'" "list_all P xs" "k (after prev xs, s') = Some r"
  using assms
proof (induction s arbitrary: prev thesis)
  case Nil
  from Nil.prems(1) [of "[]" "[]"] Nil.prems(2) show ?case by simp
next
  case (Cons c cs)
  show ?case
  proof (cases "k (prev, c # cs)")
    case (Some r')
    with Cons.prems(2) have "k (prev, c # cs) = Some r" by simp
    with Cons.prems(1) [of "[]" "c # cs"] show ?thesis by simp
  next
    case None
    with Cons.prems(2) have Pc: "P c" and k: "re_star_lazy P k (Some c, cs) = Some r"
      by (simp_all split: if_splits)
    from Cons.IH [OF _ k] obtain xs s' where "cs = xs @ s'" "list_all P xs"
      "k (after (Some c) xs, s') = Some r"
      by blast
    with Cons.prems(1) [of "c # xs" s'] Pc show ?thesis by simp
  qed
qed

lemma re_search_bol: "re_search (re_bol k) (Some c, s) = None"
  by (induction s arbitrary: c) simp_all

lemma re_search_bol_start: "re_search (re_bol k) (None, s) = k (None, s)"
  by (cases s) (simp_all add: re_search_bol split: option.splits)

lemma back_chain:
  assumes bk: "\<And>prev' c cs. P c \<Longrightarrow> k (Some c, cs) = None \<Longrightarrow> k (prev', c # cs) = None"
    and "list_all P ws" and "k (after prev ws, s') = None"
  shows "k (prev, ws @ s') = None"
  using assms(2,3)
proof (induction ws arbitrary: prev)
  case Nil
  then show ?case by simp
next
  case (Cons c ws)
  then have "k (Some c, ws @ s') = None" by simp
  with Cons.prems(1) bk [of c "ws @ s'" prev] show ?case by simp
qed

lemma re_plus_greedy:
  assumes bk: "\<And>prev' c cs. P c \<Longrightarrow> k (Some c, cs) = None \<Longrightarrow> k (prev', c # cs) = None"
  shows "re_plus P k (prev, s) =
           (if s = [] \<or> \<not> P (hd s) then None
            else k (after prev (takeWhile P s), dropWhile P s))"
proof (induction s arbitrary: prev)
  case Nil
  then show ?case by simp
next
  case (Cons c cs)
  show ?case
  proof (cases "P c")
    case False
    then show ?thesis by simp
  next
    case Pc: True
    show ?thesis
    proof (cases "cs = [] \<or> \<not> P (hd cs)")
      case True
      then have "re_plus P k (Some c, cs) = None"
        using Cons.IH [of "Some c"] by simp
      moreover from True have "takeWhile P cs = []" "dropWhile P cs = cs"
        by (cases cs; simp)+
      ultimately show ?thesis using Pc by simp
    next
      case False
      then have inner: "re_plus P k (Some c, cs) =
          k (after (Some c) (takeWhile P cs), dropWhile P cs)"
        using Cons.IH [of "Some c"] by simp
      show ?thesis
      proof (cases "k (after (Some c) (takeWhile P cs), dropWhile P cs)")
        case None
        have "list_all P (takeWhile P cs)"
          by (auto simp: list_all_iff dest: set_takeWhileD)
        from back_chain [OF bk this None] have "k (Some c, cs) = None"
          by simp
        with None inner Pc show ?thesis by simp
      next
        case (Some r)
        with inner Pc show ?thesis by simp
      qed
    qed
  qed
qed

lemma take_length_dropWhile: "take (length s - length (dropWhile P s)) s = takeWhile P s"
proof -
  have "length s = length (takeWhile P s) + length (dropWhile P s)"
    by (metis length_append takeWhile_dropWhile_id)
  then have "take (length s - length (dropWhile P s)) s = take (length (takeWhile P s)) s"
    by simp
  then show ?thesis by (simp add: takeWhile_eq_take [symmetric])
qed

lemma re_opt_group_token:
  "re_opt_group (re_plus (\<lambda>c. \<not> is_space c)) (\<lambda>path cur. Some (F path)) (prev, s) =
     Some (F (path_token s))"
proof -
  let ?P = "\<lambda>c. \<not> is_space c"
  let ?k = "\<lambda>(prev', s'). Some (F (Some (take (length s - length s') s)))"
  have "re_plus ?P ?k (prev, s) =
          (if s = [] \<or> \<not> ?P (hd s) then None
           else ?k (after prev (takeWhile ?P s), dropWhile ?P s))"
    by (rule re_plus_greedy) (simp split: prod.splits)
  then show ?thesis
    by (simp add: path_token_def take_length_dropWhile)
qed

lemma LOG_RE_path_SomeE:
  assumes "LOG_RE_path U (\<lambda>path cur. Some (F path)) (prev, s) = Some r"
  obtains mid s' where "s = mid @ lit ''path='' @ s'" "list_all (\<lambda>c. c \<noteq> 10) mid"
    "\<not> word_before U (after prev mid)" "r = F (path_token s')"
proof -
  from assms obtain mid s1 where s: "s = mid @ s1" and mid: "list_all (\<lambda>c. c \<noteq> 10) mid"
    and k: "re_wordb U (re_lit (lit ''path='')
              (re_opt_group (re_plus (\<lambda>c. \<not> is_space c)) (\<lambda>path cur. Some (F path))))
              (after prev mid, s1) = Some r"
    unfolding LOG_RE_path_def by (elim re_star_lazy_SomeE)
  from k have wb: "word_before U (after prev mid) \<noteq> word_after U s1"
    and k2: "re_lit (lit ''path='')
              (re_opt_group (re_plus (\<lambda>c. \<not> is_space c)) (\<lambda>path cur. Some (F path)))
              (after prev mid, s1) = Some r"
    by (simp_all split: if_splits)
  from k2 obtain s' where s1: "s1 = lit ''path='' @ s'"
    and k3: "re_opt_group (re_plus (\<lambda>c. \<not> is_space c)) (\<lambda>path cur. Some (F path))
               (after (after prev mid) (lit ''path=''), s') = Some r"
    by (elim re_lit_SomeE)
  from k3 have r: "r = F (path_token s')"
    by (simp only: re_opt_group_token) simp
  from wb s1 have "\<not> word_before U (after prev mid)"
    by (simp add: is_word_def)
  with s s1 mid r that show ?thesis by blast
qed

lemma LOG_RE_level_SomeE:
  assumes "LOG_RE_level k (prev, s) = Some r"
  obtains lv ws s' where "s = lv @ ws @ s'" "lv \<in> set LEVELS" "spaces ws"
    "k lv (after prev (lv @ ws), s') = Some r"
proof -
  let ?k = "\<lambda>(prev', s'). re_plus is_space (k (take (length s - length s') s)) (prev', s')"
  from assms have "re_alt [re_lit (lit ''INFO''), re_lit (lit ''WARNING''), re_lit (lit ''ERROR'')]
      ?k (prev, s) = Some r"
    by (simp add: LOG_RE_level_def)
  then have "\<exists>lv\<in>set LEVELS. re_lit lv ?k (prev, s) = Some r"
    by (simp add: LEVELS_def del: re_lit.simps split: option.splits)
  then obtain lv where lv: "lv \<in> set LEVELS" and "re_lit lv ?k (prev, s) = Some r"
    by blast
  then obtain s1 where s: "s = lv @ s1" and "?k (after prev lv, s1) = Some r"
    by (elim re_lit_SomeE)
  then have "re_plus is_space (k lv) (after prev lv, s1) = Some r"
    by simp
  then obtain ws s' where "s1 = ws @ s'" "ws \<noteq> []" "list_all is_space ws"
    "k lv (after (after prev lv) ws, s') = Some r"
    by (elim re_plus_SomeE)
  with s lv that [of lv ws s'] show ?thesis
    by (simp add: spaces_def)
qed

lemma passes_count: "passes (re_count n P)"
  unfolding passes_def by (blast elim: re_count_SomeE)

lemma passes_lit: "passes (re_lit xs)"
  unfolding passes_def by (blast elim: re_lit_SomeE)

lemma passes_plus: "passes (re_plus P)"
  unfolding passes_def by (blast elim: re_plus_SomeE)

lemma passes_comp:
  assumes "passes T1" and "passes T2"
  shows "passes (T1 \<circ> T2)"
  unfolding passes_def
proof (intro allI impI)
  fix k prev s r
  assume "(T1 \<circ> T2) k (prev, s) = Some r"
  then have "T1 (T2 k) (prev, s) = Some r" by simp
  with assms(1) obtain xs s1 where 1: "s = xs @ s1" and "T2 k (after prev xs, s1) = Some r"
    unfolding passes_def by blast
  with assms(2) obtain ys s2 where 2: "s1 = ys @ s2"
    and "k (after (after prev xs) ys, s2) = Some r"
    unfolding passes_def by blast
  with 1 have "s = (xs @ ys) @ s2 \<and> k (after prev (xs @ ys), s2) = Some r"
    by simp
  then show "\<exists>xs s'. s = xs @ s' \<and> k (after prev xs, s') = Some r"
    by blast
qed

lemma re_group_SomeE:
  assumes "re_group body k (prev, s) = Some r" and "passes body"
  obtains xs s' where "s = xs @ s'" "k xs (after prev xs, s') = Some r"
proof -
  from assms obtain xs s' where "s = xs @ s'"
    and "(\<lambda>(prev', s'). k (take (length s - length s') s) (prev', s')) (after prev xs, s') = Some r"
    unfolding passes_def re_group.simps by blast
  with that [of xs s'] show ?thesis by simp
qed

lemma LOG_RE_ts_SomeE:
  assumes "LOG_RE_ts U k (prev, s) = Some r"
  obtains ts ws s' where "s = ts @ ws @ s'" "prev = None" "spaces ws"
    "k ts (after prev (ts @ ws), s') = Some r"
proof -
  from assms have p: "prev = None"
    by (simp add: LOG_RE_ts_def split: if_splits)
  let ?body = "re_count 4 (is_digit U) \<circ> re_lit (lit ''-'') \<circ> re_count 2 (is_digit U) \<circ>
               re_lit (lit ''-'') \<circ> re_count 2 (is_digit U) \<circ> re_plus is_space \<circ>
               re_count 2 (is_digit U) \<circ> re_lit (lit '':'') \<circ> re_count 2 (is_digit U) \<circ>
               re_lit (lit '':'') \<circ> re_count 2 (is_digit U)"
  have body: "passes ?body"
    by (intro passes_comp passes_count passes_lit passes_plus)
  from assms p have "re_group ?body (\<lambda>ts. re_plus is_space (k ts)) (prev, s) = Some r"
    by (simp add: LOG_RE_ts_def)
  from re_group_SomeE [OF this body] obtain ts s1 where s: "s = ts @ s1"
    and "re_plus is_space (k ts) (after prev ts, s1) = Some r"
    by blast
  then obtain ws s' where "s1 = ws @ s'" "ws \<noteq> []" "list_all is_space ws"
    "k ts (after (after prev ts) ws, s') = Some r"
    by (elim re_plus_SomeE)
  with s p that [of ts ws s'] show ?thesis
    by (simp add: spaces_def)
qed

lemma LOG_RE_search_SomeE:
  assumes "LOG_RE_search U line = Some m"
  obtains ts ws1 ws2 mid s' where
    "line = ts @ ws1 @ m_level m @ ws2 @ mid @ lit ''path='' @ s'"
    "m_ts m = ts" "spaces ws1" "m_level m \<in> set LEVELS" "spaces ws2"
    "list_all (\<lambda>c. c \<noteq> 10) mid" "m_path m = path_token s'"
proof -
  from assms have "LOG_RE U (None, line) = Some m"
    by (simp add: LOG_RE_search_def LOG_RE_def LOG_RE_ts_def re_search_bol_start)
  then obtain ts ws1 s1 where 1: "line = ts @ ws1 @ s1" "spaces ws1"
    and "LOG_RE_level (\<lambda>level. LOG_RE_path U (\<lambda>path cur.
           Some \<lparr>m_ts = ts, m_level = level, m_path = path\<rparr>))
           (after None (ts @ ws1), s1) = Some m"
    unfolding LOG_RE_def by (elim LOG_RE_ts_SomeE)
  then obtain lv ws2 s2 where 2: "s1 = lv @ ws2 @ s2" "lv \<in> set LEVELS" "spaces ws2"
    and "LOG_RE_path U (\<lambda>path cur. Some \<lparr>m_ts = ts, m_level = lv, m_path = path\<rparr>)
           (after (after None (ts @ ws1)) (lv @ ws2), s2) = Some m"
    by (elim LOG_RE_level_SomeE)
  then obtain mid s' where 3: "s2 = mid @ lit ''path='' @ s'" "list_all (\<lambda>c. c \<noteq> 10) mid"
    and m: "m = \<lparr>m_ts = ts, m_level = lv, m_path = path_token s'\<rparr>"
    by (elim LOG_RE_path_SomeE)
  from 1 2 3 m that [of ts ws1 ws2 mid s'] show ?thesis
    by simp
qed

lemma no_marker_no_match:
  assumes "\<not> sublist (lit ''path='') line"
  shows "LOG_RE_search U line = None"
proof (rule ccontr)
  assume "LOG_RE_search U line \<noteq> None"
  then obtain m where "LOG_RE_search U line = Some m" by blast
  then obtain pre s' where "line = pre @ lit ''path='' @ s'"
    by (elim LOG_RE_search_SomeE) (metis append.assoc)
  then have "sublist (lit ''path='') line"
    unfolding sublist_def by blast
  with assms show False by contradiction
qed

lemma re_lit_append: "re_lit xs k (prev, xs @ s') = k (after prev xs, s')"
  by (induction xs arbitrary: prev) simp_all

lemma re_count_append:
  "length xs = n \<Longrightarrow> list_all P xs \<Longrightarrow> re_count n P k (prev, xs @ s') = k (after prev xs, s')"
  by (induction xs arbitrary: prev n) auto

lemma re_plus_run:
  assumes bk: "\<And>prev' c cs. P c \<Longrightarrow> k (Some c, cs) = None \<Longrightarrow> k (prev', c # cs) = None"
    and ws: "ws \<noteq> []" "list_all P ws" and s': "s' = [] \<or> \<not> P (hd s')"
  shows "re_plus P k (prev, ws @ s') = k (after prev ws, s')"
proof -
  from s' have t: "takeWhile P s' = []" and d: "dropWhile P s' = s'"
    by (cases s'; auto)+
  from ws have "takeWhile P (ws @ s') = ws" "dropWhile P (ws @ s') = s'"
    by (simp_all add: takeWhile_append2 dropWhile_append2 list_all_iff t d)
  moreover from ws have "\<not> (ws @ s' = [] \<or> \<not> P (hd (ws @ s')))"
    by (cases ws) simp_all
  ultimately show ?thesis
    using re_plus_greedy [of P k prev "ws @ s'", OF bk] ws(1) by simp
qed

lemma digit_not_space: "is_digit U c \<Longrightarrow> \<not> is_space c"
  by (auto simp: is_digit_def is_space_def split: if_splits)

lemma re_star_lazy_first:
  assumes "list_all P mid"
    and "\<forall>i<length mid. k (after prev (take i mid), drop i mid @ s') = None"
    and "k (after prev mid, s') = Some r"
  shows "re_star_lazy P k (prev, mid @ s') = Some r"
  using assms
proof (induction mid arbitrary: prev)
  case Nil
  then show ?case by (cases s') simp_all
next
  case (Cons c mid)
  from Cons.prems(2) have 0: "k (prev, c # mid @ s') = None"
    by (auto dest: spec [of _ 0])
  have "\<forall>i<length mid. k (after (Some c) (take i mid), drop i mid @ s') = None"
  proof (intro allI impI)
    fix i assume "i < length mid"
    with Cons.prems(2) have "k (after prev (take (Suc i) (c # mid)), drop (Suc i) (c # mid) @ s') = None"
      by (auto dest: spec [of _ "Suc i"])
    then show "k (after (Some c) (take i mid), drop i mid @ s') = None" by simp
  qed
  with Cons.IH [of "Some c"] Cons.prems have "re_star_lazy P k (Some c, mid @ s') = Some r"
    by simp
  with 0 Cons.prems(1) show ?case by simp
qed

lemma re_star_lazy_absorb:
  assumes "list_all P sp" and "\<And>prev' c cs. c \<in> set sp \<Longrightarrow> k (prev', c # cs) = None"
  shows "re_star_lazy P k (prev, sp @ s') = re_star_lazy P k (after prev sp, s')"
  using assms by (induction sp arbitrary: prev) simp_all

lemma marker_cont_Some:
  assumes "re_wordb U (re_lit (lit ''path='') k) (p, s) = Some r"
  shows "prefix (lit ''path='') s \<and> \<not> word_before U p"
proof -
  from assms have wb: "word_before U p \<noteq> word_after U s"
    and "re_lit (lit ''path='') k (p, s) = Some r"
    by (simp_all del: re_lit.simps split: if_splits)
  then obtain s' where s: "s = lit ''path='' @ s'"
    by (elim re_lit_SomeE)
  then have "word_after U s" by (simp add: is_word_def)
  with wb s show ?thesis by simp
qed

lemma marker_cont_at:
  assumes "\<not> word_before U p"
  shows "re_wordb U (re_lit (lit ''path='')
     (re_opt_group (re_plus (\<lambda>c. \<not> is_space c)) (\<lambda>path cur. Some (F path))))
     (p, lit ''path='' @ rest) = Some (F (path_token rest))"
proof -
  let ?K = "re_opt_group (re_plus (\<lambda>c. \<not> is_space c)) (\<lambda>path cur. Some (F path))"
  have "re_lit (lit ''path='') ?K (p, lit ''path='' @ rest) = ?K (after p (lit ''path=''), rest)"
    by (rule re_lit_append)
  also have "\<dots> = Some (F (path_token rest))"
    by (rule re_opt_group_token)
  finally have l: "re_lit (lit ''path='') ?K (p, lit ''path='' @ rest) =
      Some (F (path_token rest))" .
  have "word_after U (lit ''path='' @ rest)"
    by (simp add: is_word_def)
  with assms have "word_before U p \<noteq> word_after U (lit ''path='' @ rest)"
    by simp
  then show ?thesis
    by (simp only: re_wordb.simps l) simp
qed

lemma prefix_inside:
  assumes "prefix xs (a @ xs @ rest)" and "a \<noteq> []"
  shows "prefix xs (a @ xs)"
proof -
  from assms(1) have "prefix xs ((a @ xs) @ rest)" by simp
  then have "prefix xs (a @ xs) \<or> (\<exists>us. xs = (a @ xs) @ us \<and> prefix us rest)"
    by (simp only: prefix_append)
  moreover have "\<not> (\<exists>us. xs = (a @ xs) @ us)"
  proof
    assume "\<exists>us. xs = (a @ xs) @ us"
    then obtain us where "xs = (a @ xs) @ us" by blast
    then have "length xs = length a + length xs + length us"
      by (metis length_append add.assoc)
    with assms(2) show False by simp
  qed
  ultimately show ?thesis by blast
qed

lemma LOG_RE_path_forward:
  assumes mid: "list_all (\<lambda>c. c \<noteq> 10) mid"
    and here: "\<not> word_before U (after prev mid)"
    and first: "\<forall>i<length mid. prefix (lit ''path='') (drop i (mid @ lit ''path='')) \<longrightarrow>
                  word_before U (after prev (take i mid))"
  shows "LOG_RE_path U (\<lambda>path cur. Some (F path)) (prev, mid @ lit ''path='' @ rest) =
           Some (F (path_token rest))"
proof -
  let ?kk = "re_wordb U (re_lit (lit ''path='')
     (re_opt_group (re_plus (\<lambda>c. \<not> is_space c)) (\<lambda>path cur. Some (F path))))"
  have "\<forall>i<length mid. ?kk (after prev (take i mid), drop i mid @ lit ''path='' @ rest) = None"
  proof (intro allI impI)
    fix i assume i: "i < length mid"
    show "?kk (after prev (take i mid), drop i mid @ lit ''path='' @ rest) = None"
    proof (rule ccontr)
      assume "?kk (after prev (take i mid), drop i mid @ lit ''path='' @ rest) \<noteq> None"
      then obtain r where "?kk (after prev (take i mid), drop i mid @ lit ''path='' @ rest) = Some r"
        by blast
      from marker_cont_Some [OF this]
      have p: "prefix (lit ''path='') (drop i mid @ lit ''path='' @ rest)"
        and w: "\<not> word_before U (after prev (take i mid))"
        by simp_all
      from i have "drop i mid \<noteq> []" by simp
      from prefix_inside [OF p this] i have "prefix (lit ''path='') (drop i (mid @ lit ''path=''))"
        by simp
      with first i w show False by blast
    qed
  qed
  moreover have "?kk (after prev mid, lit ''path='' @ rest) = Some (F (path_token rest))"
    using here by (rule marker_cont_at)
  ultimately show ?thesis
    unfolding LOG_RE_path_def
    using re_star_lazy_first [of "\<lambda>c. c \<noteq> 10" mid ?kk prev "lit ''path='' @ rest", OF mid]
    by blast
qed


lemma marker_rejects_space:
  assumes "is_space c"
  shows "re_wordb U (re_lit (lit ''path='') k) (prev', c # cs) = None"
proof -
  from assms have "c \<noteq> 112" by (auto simp: is_space_def)
  then show ?thesis by simp
qed

lemma LOG_RE_path_bk:
  assumes "is_space c" and "LOG_RE_path U k (Some c, cs) = None"
  shows "LOG_RE_path U k (prev', c # cs) = None"
proof -
  have m: "re_wordb U (re_lit (lit ''path='')
      (re_opt_group (re_plus (\<lambda>c. \<not> is_space c)) k)) (prev', c # cs) = None"
    by (rule marker_rejects_space [OF assms(1)])
  from assms(2) show ?thesis
    unfolding LOG_RE_path_def
    by (simp only: re_star_lazy.simps m) simp
qed

lemma LOG_RE_path_absorb:
  assumes "list_all is_space sp" and "list_all (\<lambda>c. c \<noteq> 10) sp"
  shows "LOG_RE_path U k (prev, sp @ s') = LOG_RE_path U k (after prev sp, s')"
  unfolding LOG_RE_path_def
  using assms(2)
proof (rule re_star_lazy_absorb)
  fix prev' c cs
  assume "c \<in> set sp"
  with assms(1) have "is_space c" by (simp add: list_all_iff)
  then show "re_wordb U (re_lit (lit ''path='')
      (re_opt_group (re_plus (\<lambda>c. \<not> is_space c)) k)) (prev', c # cs) = None"
    by (rule marker_rejects_space)
qed

lemma spaces_then_path:
  assumes ws: "spaces ws" and mid: "list_all (\<lambda>c. c \<noteq> 10) mid"
    and here: "\<not> is_word U (last (ws @ mid))"
    and first: "\<forall>i<length mid. prefix (lit ''path='') (drop i (mid @ lit ''path='')) \<longrightarrow>
                  is_word U (last (ws @ take i mid))"
  shows "re_plus is_space (LOG_RE_path U (\<lambda>path cur. Some (F path)))
           (prev, ws @ mid @ lit ''path='' @ rest) = Some (F (path_token rest))"
proof -
  let ?k = "LOG_RE_path U (\<lambda>path cur. Some (F path))"
  let ?s = "ws @ mid @ lit ''path='' @ rest"
  let ?sp = "takeWhile is_space mid"
  let ?mid' = "dropWhile is_space mid"
  from ws have ne: "ws \<noteq> []" and sp: "list_all is_space ws"
    by (simp_all add: spaces_def)
  have p: "\<not> is_space 112" by (simp add: is_space_def)
  have tw: "takeWhile is_space ?s = ws @ ?sp"
    using sp p by (simp add: takeWhile_append2 list_all_iff takeWhile_tail)
  have dw: "dropWhile is_space ?s = ?mid' @ lit ''path='' @ rest"
    using sp p by (simp add: dropWhile_append2 list_all_iff dropWhile_append3)
  have aft: "after prev (ws @ xs) = Some (last (ws @ xs))" for xs
    using ne by (simp add: after_def)
  have "re_plus is_space ?k (prev, ?s) = ?k (after prev (ws @ ?sp), ?mid' @ lit ''path='' @ rest)"
    using re_plus_greedy [of is_space ?k prev ?s, OF LOG_RE_path_bk] ne sp tw dw
    by (cases ws) simp_all
  also have "\<dots> = ?k (after (after prev ws) ?sp, ?mid' @ lit ''path='' @ rest)"
    by simp
  also have "\<dots> = ?k (after prev ws, ?sp @ ?mid' @ lit ''path='' @ rest)"
  proof (rule LOG_RE_path_absorb [symmetric])
    show "list_all is_space ?sp"
      by (auto simp: list_all_iff dest: set_takeWhileD)
    show "list_all (\<lambda>c. c \<noteq> 10) ?sp"
      using mid by (auto simp: list_all_iff dest: set_takeWhileD)
  qed
  also have "\<dots> = ?k (after prev ws, mid @ lit ''path='' @ rest)"
    by (metis append.assoc takeWhile_dropWhile_id)
  also have "\<dots> = Some (F (path_token rest))"
  proof (rule LOG_RE_path_forward [OF mid])
    show "\<not> word_before U (after (after prev ws) mid)"
      using here aft [of mid] by (simp del: after_append add: after_append [symmetric])
    show "\<forall>i<length mid. prefix (lit ''path='') (drop i (mid @ lit ''path='')) \<longrightarrow>
            word_before U (after (after prev ws) (take i mid))"
      using first aft by (simp del: after_append add: after_append [symmetric])
  qed
  finally show ?thesis .
qed

lemma alt_levels:
  assumes "lv \<in> set LEVELS"
  shows "re_alt [re_lit (lit ''INFO''), re_lit (lit ''WARNING''), re_lit (lit ''ERROR'')] k
           (prev, lv @ s') = k (after prev lv, s')"
proof -
  from assms consider "lv = lit ''INFO''" | "lv = lit ''WARNING''" | "lv = lit ''ERROR''"
    by (auto simp: LEVELS_def)
  then show ?thesis
    by cases (simp_all split: option.splits)
qed

lemma LOG_RE_level_forward:
  assumes "lv \<in> set LEVELS"
  shows "LOG_RE_level k (prev, lv @ s') = re_plus is_space (k lv) (after prev lv, s')"
  unfolding LOG_RE_level_def re_group.simps
  by (simp only: alt_levels [OF assms]) simp

lemma LOG_RE_level_rejects_space:
  assumes "is_space c"
  shows "LOG_RE_level k (prev', c # cs) = None"
proof -
  from assms have "c \<noteq> 73 \<and> c \<noteq> 87 \<and> c \<noteq> 69" by (auto simp: is_space_def)
  then show ?thesis by (simp add: LOG_RE_level_def)
qed

lemma level_starts_nonspace: "lv \<in> set LEVELS \<Longrightarrow> \<not> is_space (hd (lv @ s'))"
  by (auto simp: LEVELS_def is_space_def)


lemma digit_run_rejects_space:
  assumes "is_space c"
  shows "re_count 2 (is_digit U) k (prev', c # cs) = None"
  using assms digit_not_space [of U c] by auto

lemma ts_body_forward:
  assumes y: "digit_run U 4 y" and mo: "digit_run U 2 mo" and d: "digit_run U 2 d"
    and w0: "spaces w0" and hh: "digit_run U 2 hh" and mi: "digit_run U 2 mi"
    and ss: "digit_run U 2 ss"
  shows "(re_count 4 (is_digit U) \<circ> re_lit (lit ''-'') \<circ> re_count 2 (is_digit U) \<circ>
          re_lit (lit ''-'') \<circ> re_count 2 (is_digit U) \<circ> re_plus is_space \<circ>
          re_count 2 (is_digit U) \<circ> re_lit (lit '':'') \<circ> re_count 2 (is_digit U) \<circ>
          re_lit (lit '':'') \<circ> re_count 2 (is_digit U)) k
         (prev, y @ lit ''-'' @ mo @ lit ''-'' @ d @ w0 @ hh @ lit '':'' @ mi @ lit '':'' @ ss @ rest) =
         k (Some (last ss), rest)"
proof -
  let ?D = "is_digit U"
  let ?k5 = "re_count 2 ?D (re_lit (lit '':'') (re_count 2 ?D (re_lit (lit '':'')
               (re_count 2 ?D k))))"
  have hh0: "hh \<noteq> []" "is_digit U (hd hh)"
    using hh by (cases hh; simp add: digit_run_def)+
  have run: "re_plus is_space ?k5 (p, w0 @ hh @ r) = ?k5 (after p w0, hh @ r)" for p r
  proof (rule re_plus_run)
    fix prev' c cs
    assume "is_space c"
    then show "?k5 (prev', c # cs) = None"
      by (rule digit_run_rejects_space)
  next
    show "w0 \<noteq> []" "list_all is_space w0"
      using w0 by (simp_all add: spaces_def)
    show "hh @ r = [] \<or> \<not> is_space (hd (hh @ r))"
      using hh0 digit_not_space [of U "hd hh"] by simp
  qed
  have ss0: "after p ss = Some (last ss)" for p
    using ss by (auto simp: digit_run_def after_def)
  show ?thesis
    using y mo d hh mi ss
    by (simp only: o_apply re_count_append re_lit_append run digit_run_def ss0)
qed

lemma LOG_RE_ts_forward:
  assumes y: "digit_run U 4 y" and mo: "digit_run U 2 mo" and d: "digit_run U 2 d"
    and w0: "spaces w0" and hh: "digit_run U 2 hh" and mi: "digit_run U 2 mi"
    and ss: "digit_run U 2 ss"
    and ts: "ts = y @ lit ''-'' @ mo @ lit ''-'' @ d @ w0 @ hh @ lit '':'' @ mi @ lit '':'' @ ss"
    and ws: "spaces ws" and s': "s' = [] \<or> \<not> is_space (hd s')"
    and rej: "\<And>prev' c cs. is_space c \<Longrightarrow> k ts (prev', c # cs) = None"
  shows "LOG_RE_ts U k (None, ts @ ws @ s') = k ts (Some (last ws), s')"
proof -
  let ?s = "ts @ ws @ s'"
  let ?kk = "\<lambda>(prev', s'a). re_plus is_space (k (take (length ?s - length s'a) ?s)) (prev', s'a)"
  have "LOG_RE_ts U k (None, ?s) =
      (re_count 4 (is_digit U) \<circ> re_lit (lit ''-'') \<circ> re_count 2 (is_digit U) \<circ>
          re_lit (lit ''-'') \<circ> re_count 2 (is_digit U) \<circ> re_plus is_space \<circ>
          re_count 2 (is_digit U) \<circ> re_lit (lit '':'') \<circ> re_count 2 (is_digit U) \<circ>
          re_lit (lit '':'') \<circ> re_count 2 (is_digit U)) ?kk
         (None, y @ lit ''-'' @ mo @ lit ''-'' @ d @ w0 @ hh @ lit '':'' @ mi @ lit '':'' @ ss @ (ws @ s'))"
    unfolding LOG_RE_ts_def re_bol.simps re_group.simps ts by simp
  also have "\<dots> = ?kk (Some (last ss), ws @ s')"
    by (rule ts_body_forward [OF y mo d w0 hh mi ss])
  also have "\<dots> = re_plus is_space (k ts) (Some (last ss), ws @ s')"
    by simp
  also have "\<dots> = k ts (after (Some (last ss)) ws, s')"
  proof (rule re_plus_run)
    fix prev' c cs
    assume "is_space c"
    then show "k ts (prev', c # cs) = None" by (rule rej)
  next
    show "ws \<noteq> []" "list_all is_space ws"
      using ws by (simp_all add: spaces_def)
    show "s' = [] \<or> \<not> is_space (hd s')" by (rule s')
  qed
  also have "\<dots> = k ts (Some (last ws), s')"
    using ws by (simp add: spaces_def after_def)
  finally show ?thesis .
qed

lemma LOG_RE_search_forward:
  assumes y: "digit_run U 4 y" and mo: "digit_run U 2 mo" and d: "digit_run U 2 d"
    and w0: "spaces w0" and hh: "digit_run U 2 hh" and mi: "digit_run U 2 mi"
    and ss: "digit_run U 2 ss"
    and ts: "ts = y @ lit ''-'' @ mo @ lit ''-'' @ d @ w0 @ hh @ lit '':'' @ mi @ lit '':'' @ ss"
    and ws1: "spaces ws1" and lv: "lv \<in> set LEVELS" and ws2: "spaces ws2"
    and mid: "list_all (\<lambda>c. c \<noteq> 10) mid"
    and here: "\<not> is_word U (last (ws2 @ mid))"
    and first: "\<forall>i<length mid. prefix (lit ''path='') (drop i (mid @ lit ''path='')) \<longrightarrow>
                  is_word U (last (ws2 @ take i mid))"
  shows "LOG_RE_search U (ts @ ws1 @ lv @ ws2 @ mid @ lit ''path='' @ rest) =
           Some \<lparr>m_ts = ts, m_level = lv, m_path = path_token rest\<rparr>"
proof -
  let ?tail = "ws2 @ mid @ lit ''path='' @ rest"
  let ?K2 = "\<lambda>ts level. LOG_RE_path U (\<lambda>path cur.
               Some \<lparr>m_ts = ts, m_level = level, m_path = path\<rparr>)"
  let ?K1 = "\<lambda>ts. LOG_RE_level (?K2 ts)"
  have "LOG_RE_search U (ts @ ws1 @ lv @ ?tail) = LOG_RE_ts U ?K1 (None, ts @ ws1 @ lv @ ?tail)"
    by (simp add: LOG_RE_search_def LOG_RE_def LOG_RE_ts_def re_search_bol_start)
  also have "\<dots> = ?K1 ts (Some (last ws1), lv @ ?tail)"
  proof (rule LOG_RE_ts_forward [OF y mo d w0 hh mi ss ts ws1])
    show "lv @ ?tail = [] \<or> \<not> is_space (hd (lv @ ?tail))"
      using level_starts_nonspace [OF lv] by simp
    fix prev' c cs
    assume "is_space c"
    then show "?K1 ts (prev', c # cs) = None"
      by (rule LOG_RE_level_rejects_space)
  qed
  also have "\<dots> = re_plus is_space (?K2 ts lv) (after (Some (last ws1)) lv, ?tail)"
    by (rule LOG_RE_level_forward [OF lv])
  also have "\<dots> = Some \<lparr>m_ts = ts, m_level = lv, m_path = path_token rest\<rparr>"
    by (rule spaces_then_path [OF ws2 mid here first])
  finally show ?thesis .
qed

text \<open>The definitions that evaluate the analysis of a concrete file.\<close>

lemmas eval_defs = analyze_log_def read_lines_def scan_lines_def init_state_def
        build_report_def most_common_def scan_line_def Let_def strip_def
        LOG_RE_search_def LOG_RE_def LOG_RE_ts_def LOG_RE_level_def LOG_RE_path_def
        is_space_def is_digit_def is_word_def counter_incr_def dict_get_def is_cont_def

text \<open>
  The ranking file: its error paths in the order they were first seen, and the three
  most frequent and the single most frequent of them.
\<close>

lemma ranking_scan:
  "\<exists>ls. read_lines Replace ranking_bytes = Inr ls \<and>
        error_paths (scan_lines ascii_ucd ls) =
          [(lit ''/b'', 1), (lit ''/a'', 2), (lit ''/c'', 2), (lit ''/d'', 1)]"
  by (simp add: eval_defs ranking_bytes_def ascii_ucd_def)

lemma ranking_top:
  "\<exists>r. analyze_log ascii_ucd ranking_world (lit ''rank.log'') 3 = Inr r \<and>
        top_error_paths r = [(lit ''/a'', 2), (lit ''/c'', 2), (lit ''/b'', 1)]"
  "\<exists>r. analyze_log ascii_ucd ranking_world (lit ''rank.log'') 1 = Inr r \<and>
        top_error_paths r = [(lit ''/a'', 2)]"
  by (simp_all add: eval_defs ranking_world_def ranking_bytes_def ascii_ucd_def)

lemma parsed_level: "parsed U raw = Some m \<Longrightarrow> m_level m \<in> set LEVELS"
  unfolding parsed_def by (auto split: if_splits elim: LOG_RE_search_SomeE)

lemma level_events_levels: "set (level_events U ls) \<subseteq> set LEVELS"
  unfolding level_events_def by (auto simp: map_filter_def dest: parsed_level)

lemma map_fst_tally: "map fst (tally ks) = first_seen ks"
  by (simp add: tally_def comp_def)

lemma dict_get_tally: "dict_get (tally ks) k 0 = int (count_list ks k)"
  by (simp add: tally_def dict_get_tabulate)

lemma tally_positive: "e \<in> set (tally ks) \<Longrightarrow> fst e \<in> set ks \<and> 1 \<le> snd e"
proof -
  assume "e \<in> set (tally ks)"
  then obtain k where k: "k \<in> set ks" and e: "e = (k, int (count_list ks k))"
    by (auto simp: tally_def)
  from k have "count_list ks k \<noteq> 0" by (simp add: count_list_0_iff)
  with e k show ?thesis by simp
qed

lemma rep_level_counts_scan:
  "rep_level_counts (build_report now p n (scan_lines U ls)) = tally (level_events U ls)"
  by (simp add: build_report_def scan_lines_level_counts)

lemma error_event_nonempty: "error_event U raw = Some p \<Longrightarrow> p \<noteq> []"
  by (auto simp: error_event_def split: option.splits if_splits)

lemma error_events_nonempty: "p \<in> set (error_events U ls) \<Longrightarrow> p \<noteq> []"
  by (auto simp: error_events_def map_filter_def dest: error_event_nonempty)

lemma set_most_common: "set (most_common n c) \<subseteq> set c"
  unfolding most_common_def using set_take_subset [of "nat n" "sort_key (\<lambda>kv. - snd kv) c"]
  by simp

lemma top_error_paths_entries:
  assumes "fs w file_path = Some (File bs)"
  shows "\<exists>r. analyze_log U w file_path top_n = Inr r \<and>
           (\<forall>e\<in>set (top_error_paths r). fst e \<noteq> [] \<and> 1 \<le> snd e)"
proof -
  obtain ls where r: "analyze_log U w file_path top_n =
              Inr (build_report (utcnow w) file_path top_n (scan_lines U ls))"
    using analyze_log_File [OF assms] by blast
  let ?r = "build_report (utcnow w) file_path top_n (scan_lines U ls)"
  have "top_error_paths ?r = most_common top_n (tally (error_events U ls))"
    by (simp add: build_report_def scan_lines_error_paths)
  then have "set (top_error_paths ?r) \<subseteq> set (tally (error_events U ls))"
    using set_most_common by simp
  then have "\<forall>e\<in>set (top_error_paths ?r). fst e \<noteq> [] \<and> 1 \<le> snd e"
    using tally_positive [of _ "error_events U ls"] error_events_nonempty [of _ U ls]
    by blast
  with r show ?thesis by blast
qed

subsection \<open>Line totals\<close>

text \<open>
  Claim C3. For every input file, the report's counters satisfy
  \<open>total_lines = parsed_lines + invalid_lines + blank_lines_skipped\<close>, where a line is
  blank when stripping its leading and trailing white space leaves nothing. Every line
  counts toward \<open>total_lines\<close>; exactly the lines that are not blank count toward
  \<open>parsed_lines\<close> or \<open>invalid_lines\<close>.
\<close>

theorem total_lines_split:
  assumes "fs w file_path = Some (File bs)"
  shows "\<exists>r ls. analyze_log U w file_path top_n = Inr r \<and> read_lines Replace bs = Inr ls \<and>
           rep_total_lines r =
             rep_parsed_lines r + rep_invalid_lines r +
             int (length (filter (\<lambda>l. strip l = []) ls)) \<and>
           rep_total_lines r = int (length ls) \<and>
           rep_parsed_lines r + rep_invalid_lines r =
             int (length (filter (\<lambda>l. strip l \<noteq> []) ls))"
proof -
  obtain ls where ls: "read_lines Replace bs = Inr ls"
    and r: "analyze_log U w file_path top_n =
              Inr (build_report (utcnow w) file_path top_n (scan_lines U ls))"
    using analyze_log_File [OF assms] by blast
  let ?st = "scan_lines U ls"
  have t: "total_lines ?st = int (length ls)"
    by (simp add: scan_lines_def foldl_total init_state_def)
  have n: "parsed_lines ?st + invalid_lines ?st =
             int (length (filter (\<lambda>l. strip l \<noteq> []) ls))"
    by (simp add: scan_lines_def foldl_nonblank init_state_def)
  have "length ls = length (filter (\<lambda>l. strip l = []) ls) +
          length (filter (\<lambda>l. strip l \<noteq> []) ls)"
    by (rule length_filter_split)
  with t n have "total_lines ?st =
      parsed_lines ?st + invalid_lines ?st + int (length (filter (\<lambda>l. strip l = []) ls))"
    by simp
  with t n ls r show ?thesis by (simp add: build_report_def)
qed

theorem total_lines_split_witness:
  "fs sample_world (lit ''app.log'') = Some (File sample_bytes) \<and>
   (\<exists>r ls. analyze_log ascii_ucd sample_world (lit ''app.log'') 5 = Inr r \<and>
      read_lines Replace sample_bytes = Inr ls \<and>
      rep_total_lines r =
        rep_parsed_lines r + rep_invalid_lines r +
        int (length (filter (\<lambda>l. strip l = []) ls)) \<and>
      rep_total_lines r = int (length ls) \<and>
      rep_parsed_lines r + rep_invalid_lines r =
        int (length (filter (\<lambda>l. strip l \<noteq> []) ls)))"
  using total_lines_split [OF sample_world_file, of ascii_ucd 5] sample_world_file by blast

subsection \<open>Level counts add up\<close>

text \<open>
  Claim C4. For every input file, the values of the report's \<open>level_counts\<close> add up to
  \<open>parsed_lines\<close>.
\<close>

theorem level_counts_sum:
  assumes "fs w file_path = Some (File bs)"
  shows "\<exists>r. analyze_log U w file_path top_n = Inr r \<and>
           sum_list (map snd (rep_level_counts r)) = rep_parsed_lines r"
proof -
  obtain ls where r: "analyze_log U w file_path top_n =
              Inr (build_report (utcnow w) file_path top_n (scan_lines U ls))"
    using analyze_log_File [OF assms] by blast
  have "sum_list (map snd (level_counts (scan_lines U ls))) - parsed_lines (scan_lines U ls) = 0"
    unfolding scan_lines_def by (simp add: foldl_level_sum init_state_def)
  with r show ?thesis by (simp add: build_report_def)
qed

theorem level_counts_sum_witness:
  "fs sample_world (lit ''app.log'') = Some (File sample_bytes) \<and>
   (\<exists>r. analyze_log ascii_ucd sample_world (lit ''app.log'') 5 = Inr r \<and>
      sum_list (map snd (rep_level_counts r)) = rep_parsed_lines r)"
  using level_counts_sum [OF sample_world_file, of ascii_ucd 5] sample_world_file by blast

subsection \<open>A missing source file\<close>

text \<open>
  Claim C6. When the source path does not name an existing file, \<^verbatim>\<open>analyze_log\<close> raises
  the source-not-found error before it reads or counts anything, \<^verbatim>\<open>main\<close> ends with that
  error and exit status 1, and the world is left as it was: no file is created or
  changed, nothing is printed and no page is opened.
\<close>

theorem missing_source_is_fatal:
  assumes "\<not> isfile w file_arg"
  shows "analyze_log U w file_arg top_arg =
           Inl (FileNotFoundError (lit ''Log file not found: '' @ file_arg)) \<and>
         main U dumps w file_arg top_arg =
           (Inl (FileNotFoundError (lit ''Log file not found: '' @ file_arg)), w) \<and>
         exit_status (main U dumps w file_arg top_arg) = 1"
  using assms by (simp add: main_def analyze_log_def)

theorem missing_source_is_fatal_witness:
  "\<not> isfile sample_world (lit ''missing.log'') \<and>
   main ascii_ucd (\<lambda>r. []) sample_world (lit ''missing.log'') 5 =
     (Inl (FileNotFoundError (lit ''Log file not found: missing.log'')), sample_world) \<and>
   exit_status (main ascii_ucd (\<lambda>r. []) sample_world (lit ''missing.log'') 5) = 1"
proof -
  have h: "\<not> isfile sample_world (lit ''missing.log'')"
    by (simp add: sample_world_def)
  show ?thesis
    using h missing_source_is_fatal [OF h, of ascii_ucd 5 "\<lambda>r. []"] by simp
qed

subsection \<open>The empty state of the top-paths table\<close>

text \<open>
  Claim C7 says that the human-readable document shows an explicit \<^verbatim>\<open>(none)\<close> message
  when \<open>top_error_paths\<close> is empty. The console summary does; the HTML page does not:
  for the report of an empty file it holds the heading row of the table and nothing
  that reads \<^verbatim>\<open>(none)\<close>.
\<close>

theorem html_report_lacks_empty_state:
  "analyze_log ascii_ucd empty_world (lit ''empty.log'') 5 = Inr empty_report \<and>
   top_error_paths empty_report = [] \<and>
   \<not> sublist (lit ''(none)'') (html_content empty_report)"
proof -
  have "analyze_log ascii_ucd empty_world (lit ''empty.log'') 5 = Inr empty_report"
    by (simp add: analyze_log_def empty_world_def read_lines_def scan_lines_def init_state_def
        build_report_def most_common_def empty_report_def)
  moreover have "\<not> sublist (lit ''(none)'') (html_content empty_report)"
    by (simp add: empty_report_def html_content_def html_head_def html_tail_def str_int_def
        digits.simps dict_get_def sublist_Cons_right)
  ultimately show ?thesis by (simp add: empty_report_def)
qed

lemma html_content_no_rows:
  "top_error_paths r = [] \<Longrightarrow> html_content r = html_head r @ html_tail"
  by (simp add: html_content_def)

lemma print_summary_shows_none:
  "top_error_paths r = [] \<Longrightarrow> suffix (lit ''  (none)'' @ [10]) (stdout (print_summary w r))"
  by (simp add: print_summary_def Let_def print_def suffix_def)

subsection \<open>Two runs on the same contents\<close>

text \<open>
  Claim C8. Two runs of the analysis with the same \<open>N\<close> on files with identical contents
  produce the same \<open>total_lines\<close>, \<open>parsed_lines\<close>, \<open>invalid_lines\<close>, \<open>level_counts\<close> and
  \<open>top_error_paths\<close>, whatever the file is called, whatever else the file system holds
  and whenever the runs happen; only \<open>generated_at\<close> and the file name may differ.
\<close>

theorem same_contents_same_counts:
  assumes "fs w1 p1 = Some (File bs)" and "fs w2 p2 = Some (File bs)"
  shows "\<exists>r1 r2. analyze_log U w1 p1 top_n = Inr r1 \<and> analyze_log U w2 p2 top_n = Inr r2 \<and>
           rep_total_lines r1 = rep_total_lines r2 \<and>
           rep_parsed_lines r1 = rep_parsed_lines r2 \<and>
           rep_invalid_lines r1 = rep_invalid_lines r2 \<and>
           rep_level_counts r1 = rep_level_counts r2 \<and>
           top_error_paths r1 = top_error_paths r2"
proof -
  obtain ls where ls: "read_lines Replace bs = Inr ls"
    and r1: "analyze_log U w1 p1 top_n =
               Inr (build_report (utcnow w1) p1 top_n (scan_lines U ls))"
    using analyze_log_File [OF assms(1)] by blast
  obtain ls' where ls': "read_lines Replace bs = Inr ls'"
    and r2: "analyze_log U w2 p2 top_n =
               Inr (build_report (utcnow w2) p2 top_n (scan_lines U ls'))"
    using analyze_log_File [OF assms(2)] by blast
  from ls ls' have "ls' = ls" by simp
  with r1 r2 show ?thesis by (simp add: build_report_def)
qed

theorem same_contents_same_counts_witness:
  "fs sample_world (lit ''app.log'') = Some (File sample_bytes) \<and>
   fs other_world (lit ''copy.log'') = Some (File sample_bytes) \<and>
   (\<exists>r1 r2. analyze_log ascii_ucd sample_world (lit ''app.log'') 5 = Inr r1 \<and>
      analyze_log ascii_ucd other_world (lit ''copy.log'') 5 = Inr r2 \<and>
      rep_total_lines r1 = rep_total_lines r2 \<and>
      rep_parsed_lines r1 = rep_parsed_lines r2 \<and>
      rep_invalid_lines r1 = rep_invalid_lines r2 \<and>
      rep_level_counts r1 = rep_level_counts r2 \<and>
      top_error_paths r1 = top_error_paths r2)"
  using same_contents_same_counts [OF sample_world_file other_world_file, of ascii_ucd 5]
    sample_world_file other_world_file by blast

subsection \<open>Bytes that are not UTF-8\<close>

text \<open>
  Claim C9. For every existing source file, whatever its bytes, the analysis returns a
  report: the file is opened with \<^verbatim>\<open>errors="replace"\<close>, under which decoding puts
  \<^verbatim>\<open>U+FFFD\<close> for every ill-formed sequence and never raises, so no decoding error can
  end the run. (Under \<^verbatim>\<open>errors="strict"\<close> the same bytes can raise, see
  \<open>strict_decoding_can_fail\<close>.)
\<close>

lemma strict_decoding_can_fail:
  "read_lines Strict [0xFF, 0xC3, 0x28, 0x0A, 0xE2, 0x82] = Inl UnicodeDecodeError"
  by (simp add: read_lines_def)

lemma replace_decoding_example:
  "read_lines Replace [0xFF, 0xC3, 0x28, 0x0A, 0xE2, 0x82] =
     Inr [[65533, 65533, 40, 10], [65533]]"
  by (simp add: read_lines_def is_cont_def)

theorem undecodable_bytes_never_abort:
  assumes "fs w file_path = Some (File bs)"
  shows "(\<exists>ls. read_lines Replace bs = Inr ls) \<and>
         (\<exists>r. analyze_log U w file_path top_n = Inr r)"
  using analyze_log_File [OF assms, of U top_n] by blast

theorem undecodable_bytes_never_abort_witness:
  "fs binary_world (lit ''bin.log'') = Some (File [0xFF, 0xC3, 0x28, 0x0A, 0xE2, 0x82]) \<and>
   read_lines Strict [0xFF, 0xC3, 0x28, 0x0A, 0xE2, 0x82] = Inl UnicodeDecodeError \<and>
   (\<exists>ls. read_lines Replace [0xFF, 0xC3, 0x28, 0x0A, 0xE2, 0x82] = Inr ls) \<and>
   (\<exists>r. analyze_log ascii_ucd binary_world (lit ''bin.log'') 5 = Inr r)"
proof -
  have h: "fs binary_world (lit ''bin.log'') = Some (File [0xFF, 0xC3, 0x28, 0x0A, 0xE2, 0x82])"
    by (simp add: binary_world_def)
  show ?thesis
    using h undecodable_bytes_never_abort [OF h, of ascii_ucd 5] strict_decoding_can_fail
    by blast
qed

subsection \<open>The top error paths\<close>

text \<open>
  Claim C5. For every final state of the loop and every requested \<open>N\<close>,
  \<open>top_error_paths\<close> is the entries of \<^verbatim>\<open>error_paths\<close> sorted by count, largest first,
  entries of equal count in the order of their insertion, cut after \<open>N\<close> entries: there
  is a remainder \<open>rest\<close> such that \<open>top_error_paths @ rest\<close> is a rearrangement of the
  entries in which counts never increase and entries of each count keep their order,
  the list has \<open>min N (number of entries)\<close> elements, and it is empty when \<open>N \<le> 0\<close>. The
  entries themselves list each path once, in the order the paths were first seen, with
  its number of occurrences.
\<close>

theorem top_error_paths_sorted_stable_cut:
  assumes "fs w file_path = Some (File bs)"
  shows "\<exists>r ls rest.
           analyze_log U w file_path top_n = Inr r \<and> read_lines Replace bs = Inr ls \<and>
           error_paths (scan_lines U ls) = tally (error_events U ls) \<and>
           mset (top_error_paths r @ rest) = mset (error_paths (scan_lines U ls)) \<and>
           sorted_wrt (\<lambda>a b. snd b \<le> snd a) (top_error_paths r @ rest) \<and>
           (\<forall>k. filter (\<lambda>e. snd e = k) (top_error_paths r @ rest) =
                filter (\<lambda>e. snd e = k) (error_paths (scan_lines U ls))) \<and>
           length (top_error_paths r) =
             min (nat top_n) (length (error_paths (scan_lines U ls))) \<and>
           (top_n \<le> 0 \<longrightarrow> top_error_paths r = [])"
proof -
  obtain ls where ls: "read_lines Replace bs = Inr ls"
    and r: "analyze_log U w file_path top_n =
              Inr (build_report (utcnow w) file_path top_n (scan_lines U ls))"
    using analyze_log_File [OF assms] by blast
  let ?c = "error_paths (scan_lines U ls)"
  let ?r = "build_report (utcnow w) file_path top_n (scan_lines U ls)"
  have top: "top_error_paths ?r = most_common top_n ?c"
    by (simp add: build_report_def)
  obtain rest where rest: "mset (most_common top_n ?c @ rest) = mset ?c"
      "sorted_wrt (\<lambda>a b. snd b \<le> snd a) (most_common top_n ?c @ rest)"
      "\<forall>k. filter (\<lambda>e. snd e = k) (most_common top_n ?c @ rest) = filter (\<lambda>e. snd e = k) ?c"
    using most_common_sorted_stable [of top_n ?c] by blast
  have len: "length (most_common top_n ?c) = min (nat top_n) (length ?c)"
    by (simp add: most_common_def)
  have nonpos: "top_n \<le> 0 \<longrightarrow> most_common top_n ?c = []"
    by (simp add: most_common_def)
  show ?thesis
    apply (rule exI [of _ ?r], rule exI [of _ ls], rule exI [of _ rest])
    using r ls rest len nonpos scan_lines_error_paths [of U ls] unfolding top
    by simp
qed

theorem top_error_paths_sorted_stable_cut_witness:
  "fs ranking_world (lit ''rank.log'') = Some (File ranking_bytes) \<and>
   (\<exists>r ls rest.
      analyze_log ascii_ucd ranking_world (lit ''rank.log'') 3 = Inr r \<and>
      read_lines Replace ranking_bytes = Inr ls \<and>
      error_paths (scan_lines ascii_ucd ls) = tally (error_events ascii_ucd ls) \<and>
      error_paths (scan_lines ascii_ucd ls) =
        [(lit ''/b'', 1), (lit ''/a'', 2), (lit ''/c'', 2), (lit ''/d'', 1)] \<and>
      top_error_paths r = [(lit ''/a'', 2), (lit ''/c'', 2), (lit ''/b'', 1)] \<and>
      mset (top_error_paths r @ rest) = mset (error_paths (scan_lines ascii_ucd ls)) \<and>
      sorted_wrt (\<lambda>a b. snd b \<le> snd a) (top_error_paths r @ rest) \<and>
      (\<forall>k. filter (\<lambda>e. snd e = k) (top_error_paths r @ rest) =
           filter (\<lambda>e. snd e = k) (error_paths (scan_lines ascii_ucd ls))) \<and>
      length (top_error_paths r) =
        min (nat 3) (length (error_paths (scan_lines ascii_ucd ls))) \<and>
      length (top_error_paths r) < length (error_paths (scan_lines ascii_ucd ls))) \<and>
   (\<exists>r. analyze_log ascii_ucd ranking_world (lit ''rank.log'') 1 = Inr r \<and>
        top_error_paths r = [(lit ''/a'', 2)]) \<and>
   (\<exists>r. analyze_log ascii_ucd ranking_world (lit ''rank.log'') 0 = Inr r \<and>
        top_error_paths r = []) \<and>
   (\<exists>r. analyze_log ascii_ucd ranking_world (lit ''rank.log'') (- 2) = Inr r \<and>
        top_error_paths r = [])"
proof -
  note f = ranking_world_file
  obtain ls0 where ls0: "read_lines Replace ranking_bytes = Inr ls0"
    and c0: "error_paths (scan_lines ascii_ucd ls0) =
               [(lit ''/b'', 1), (lit ''/a'', 2), (lit ''/c'', 2), (lit ''/d'', 1)]"
    using ranking_scan by blast
  obtain r3 where r3: "analyze_log ascii_ucd ranking_world (lit ''rank.log'') 3 = Inr r3"
    and t3: "top_error_paths r3 = [(lit ''/a'', 2), (lit ''/c'', 2), (lit ''/b'', 1)]"
    using ranking_top(1) by blast
  obtain r1 where r1: "analyze_log ascii_ucd ranking_world (lit ''rank.log'') 1 = Inr r1"
    and t1: "top_error_paths r1 = [(lit ''/a'', 2)]"
    using ranking_top(2) by blast
  have a: "\<exists>r ls rest.
      analyze_log ascii_ucd ranking_world (lit ''rank.log'') 3 = Inr r \<and>
      read_lines Replace ranking_bytes = Inr ls \<and>
      error_paths (scan_lines ascii_ucd ls) = tally (error_events ascii_ucd ls) \<and>
      error_paths (scan_lines ascii_ucd ls) =
        [(lit ''/b'', 1), (lit ''/a'', 2), (lit ''/c'', 2), (lit ''/d'', 1)] \<and>
      top_error_paths r = [(lit ''/a'', 2), (lit ''/c'', 2), (lit ''/b'', 1)] \<and>
      mset (top_error_paths r @ rest) = mset (error_paths (scan_lines ascii_ucd ls)) \<and>
      sorted_wrt (\<lambda>a b. snd b \<le> snd a) (top_error_paths r @ rest) \<and>
      (\<forall>k. filter (\<lambda>e. snd e = k) (top_error_paths r @ rest) =
           filter (\<lambda>e. snd e = k) (error_paths (scan_lines ascii_ucd ls))) \<and>
      length (top_error_paths r) =
        min (nat 3) (length (error_paths (scan_lines ascii_ucd ls))) \<and>
      length (top_error_paths r) < length (error_paths (scan_lines ascii_ucd ls))"
  proof -
    obtain r ls rest where h:
      "analyze_log ascii_ucd ranking_world (lit ''rank.log'') 3 = Inr r"
      "read_lines Replace ranking_bytes = Inr ls"
      "error_paths (scan_lines ascii_ucd ls) = tally (error_events ascii_ucd ls)"
      "mset (top_error_paths r @ rest) = mset (error_paths (scan_lines ascii_ucd ls))"
      "sorted_wrt (\<lambda>a b. snd b \<le> snd a) (top_error_paths r @ rest)"
      "\<forall>k. filter (\<lambda>e. snd e = k) (top_error_paths r @ rest) =
           filter (\<lambda>e. snd e = k) (error_paths (scan_lines ascii_ucd ls))"
      "length (top_error_paths r) =
         min (nat 3) (length (error_paths (scan_lines ascii_ucd ls)))"
      using top_error_paths_sorted_stable_cut [OF f, of ascii_ucd 3] by blast
    from h(1) r3 have rr: "r = r3" by simp
    from h(2) ls0 have ll: "ls = ls0" by simp
    have lt: "length (top_error_paths r) < length (error_paths (scan_lines ascii_ucd ls))"
      by (simp add: rr ll t3 c0)
    show ?thesis
      apply (rule exI [of _ r], rule exI [of _ ls], rule exI [of _ rest])
      using h lt t3 c0 unfolding rr ll by simp
  qed
  have b: "\<exists>r. analyze_log ascii_ucd ranking_world (lit ''rank.log'') 0 = Inr r \<and>
        top_error_paths r = []"
    using top_error_paths_sorted_stable_cut [OF f, of ascii_ucd 0] by auto
  have c: "\<exists>r. analyze_log ascii_ucd ranking_world (lit ''rank.log'') (- 2) = Inr r \<and>
        top_error_paths r = []"
    using top_error_paths_sorted_stable_cut [OF f, of ascii_ucd "- 2"] by auto
  from f a r1 t1 b c show ?thesis by blast
qed

subsection \<open>Lines without a path field\<close>

text \<open>
  Claim C1 says that a line with a valid timestamp and severity but no \<^verbatim>\<open>path=\<close> field
  yields a record with no path and is counted as parsed. In the code only the token
  after \<^verbatim>\<open>path=\<close> is optional, the marker itself is not: such a line does not match
  \<^verbatim>\<open>LOG_RE\<close> (no line without the text \<^verbatim>\<open>path=\<close> does, see \<open>no_marker_no_match\<close>), and
  the loop counts it as invalid and counts no level for it.
\<close>

theorem line_without_path_is_invalid:
  "LOG_RE_search U (lit ''2026-02-18 07:01:06 INFO service=api msg=started'') = None \<and>
   analyze_log U nopath_world (lit ''nopath.log'') 5 =
     Inr \<lparr>generated_at = lit ''2026-02-18T08:00:00Z'', rep_file = lit ''nopath.log'',
          rep_total_lines = 1, rep_parsed_lines = 0, rep_invalid_lines = 1,
          rep_level_counts = [], top_error_paths = []\<rparr>"
  by (simp add: eval_defs nopath_world_def nopath_bytes_def)

subsection \<open>The keys of the level counts\<close>

text \<open>
  Claim C2 says that \<open>level_counts\<close> always holds the three keys \<^verbatim>\<open>INFO\<close>, \<^verbatim>\<open>WARNING\<close>
  and \<^verbatim>\<open>ERROR\<close>. It does not: the report of an empty file has no key at all, and the
  report of the three-line sample file has no \<^verbatim>\<open>WARNING\<close>.
\<close>

theorem level_counts_lack_unseen_levels:
  "analyze_log ascii_ucd empty_world (lit ''empty.log'') 5 = Inr empty_report \<and>
   rep_level_counts empty_report = [] \<and>
   analyze_log ascii_ucd sample_world (lit ''app.log'') 5 =
     Inr \<lparr>generated_at = lit ''2026-02-18T08:00:00Z'', rep_file = lit ''app.log'',
          rep_total_lines = 3, rep_parsed_lines = 2, rep_invalid_lines = 1,
          rep_level_counts = [(lit ''ERROR'', 1), (lit ''INFO'', 1)],
          top_error_paths = [(lit ''/login'', 1)]\<rparr> \<and>
   map_of [(lit ''ERROR'', 1::int), (lit ''INFO'', 1)] (lit ''WARNING'') = None"
  by (simp add: eval_defs empty_world_def empty_report_def sample_world_def sample_bytes_def ascii_ucd_def)

text \<open>
  Claim C2, amended. For every input file, \<open>level_counts\<close> holds exactly the levels of
  the parsed lines, each once, in the order they were first seen, each with the number
  of parsed lines of that level (at least 1); its keys are among \<^verbatim>\<open>INFO\<close>, \<^verbatim>\<open>WARNING\<close>
  and \<^verbatim>\<open>ERROR\<close>. A level no parsed line has is absent, and reading it with default 0, as
  the summary and the page do (\<^verbatim>\<open>.get(level, 0)\<close>), gives 0, the number of such lines.
  An empty file yields the empty mapping.
\<close>

theorem level_counts_hold_seen_levels:
  assumes "fs w file_path = Some (File bs)"
  shows "\<exists>r ls. analyze_log U w file_path top_n = Inr r \<and> read_lines Replace bs = Inr ls \<and>
           rep_level_counts r = tally (level_events U ls) \<and>
           set (map fst (rep_level_counts r)) = set (level_events U ls) \<and>
           set (level_events U ls) \<subseteq> set LEVELS \<and>
           distinct (map fst (rep_level_counts r)) \<and>
           (\<forall>e\<in>set (rep_level_counts r). 1 \<le> snd e) \<and>
           (\<forall>lvl. dict_get (rep_level_counts r) lvl 0 = int (count_list (level_events U ls) lvl)) \<and>
           (ls = [] \<longrightarrow> rep_level_counts r = [])"
proof -
  obtain ls where ls: "read_lines Replace bs = Inr ls"
    and r: "analyze_log U w file_path top_n =
              Inr (build_report (utcnow w) file_path top_n (scan_lines U ls))"
    using analyze_log_File [OF assms] by blast
  let ?r = "build_report (utcnow w) file_path top_n (scan_lines U ls)"
  have c: "rep_level_counts ?r = tally (level_events U ls)"
    by (simp add: build_report_def scan_lines_level_counts)
  have "set (map fst (tally (level_events U ls))) = set (level_events U ls)"
    by (simp add: map_fst_tally)
  moreover have "distinct (map fst (tally (level_events U ls)))"
    by (simp add: map_fst_tally)
  moreover have "\<forall>e\<in>set (tally (level_events U ls)). 1 \<le> snd e"
    by (auto dest: tally_positive)
  moreover have "ls = [] \<longrightarrow> tally (level_events U ls) = []"
    by (simp add: level_events_def tally_Nil)
  ultimately show ?thesis
    apply (intro exI [of _ ?r] exI [of _ ls])
    using r ls level_events_levels [of U ls]
    by (simp add: rep_level_counts_scan dict_get_tally)
qed

theorem level_counts_hold_seen_levels_witness:
  "fs sample_world (lit ''app.log'') = Some (File sample_bytes) \<and>
   (\<exists>r ls. analyze_log ascii_ucd sample_world (lit ''app.log'') 5 = Inr r \<and>
      read_lines Replace sample_bytes = Inr ls \<and>
      rep_level_counts r = tally (level_events ascii_ucd ls) \<and>
      set (map fst (rep_level_counts r)) = set (level_events ascii_ucd ls) \<and>
      set (level_events ascii_ucd ls) \<subseteq> set LEVELS \<and>
      distinct (map fst (rep_level_counts r)) \<and>
      (\<forall>e\<in>set (rep_level_counts r). 1 \<le> snd e) \<and>
      (\<forall>lvl. dict_get (rep_level_counts r) lvl 0 =
             int (count_list (level_events ascii_ucd ls) lvl)) \<and>
      (ls = [] \<longrightarrow> rep_level_counts r = []))"
  using level_counts_hold_seen_levels [OF sample_world_file, of ascii_ucd 5]
    sample_world_file by blast

subsection \<open>A path field with an empty token\<close>

text \<open>
  Claim C10. Take a line of the grammar whose \<^verbatim>\<open>path=\<close> field has an empty token: a
  timestamp \<^verbatim>\<open>dddd-dd-dd dd:dd:dd\<close>, white space, a level, white space, any text \<open>mid\<close>
  without a line feed, then the first \<^verbatim>\<open>path=\<close> that stands at a word boundary (every
  earlier \<^verbatim>\<open>path=\<close> in \<open>mid\<close> follows a word character, this one does not), followed by
  white space or by the end of the line. The pattern matches it with the path group
  unset, so the loop counts the line as parsed, counts its level, and leaves
  \<^verbatim>\<open>error_paths\<close> as it was, also when the level is \<^verbatim>\<open>ERROR\<close>. And for every file, every
  pair in \<open>top_error_paths\<close> has a non-empty path and a count of at least 1.
\<close>

theorem empty_path_token_is_no_path:
  assumes y: "digit_run U 4 y" and mo: "digit_run U 2 mo" and d: "digit_run U 2 d"
    and w0: "spaces w0" and hh: "digit_run U 2 hh" and mi: "digit_run U 2 mi"
    and ss: "digit_run U 2 ss"
    and ts: "ts = y @ lit ''-'' @ mo @ lit ''-'' @ d @ w0 @ hh @ lit '':'' @ mi @ lit '':'' @ ss"
    and ws1: "spaces ws1" and lv: "lv \<in> set LEVELS" and ws2: "spaces ws2"
    and mid: "list_all (\<lambda>c. c \<noteq> 10) mid"
    and here: "\<not> is_word U (last (ws2 @ mid))"
    and first: "\<forall>i<length mid. prefix (lit ''path='') (drop i (mid @ lit ''path='')) \<longrightarrow>
                  is_word U (last (ws2 @ take i mid))"
    and tok: "rest = [] \<or> is_space (hd rest)"
    and raw: "strip raw = ts @ ws1 @ lv @ ws2 @ mid @ lit ''path='' @ rest"
  shows "LOG_RE_search U (strip raw) = Some \<lparr>m_ts = ts, m_level = lv, m_path = None\<rparr> \<and>
         scan_line U st raw =
           st\<lparr>total_lines := total_lines st + 1, parsed_lines := parsed_lines st + 1,
              level_counts := counter_incr (level_counts st) lv\<rparr> \<and>
         error_paths (scan_line U st raw) = error_paths st \<and>
         (\<forall>w file_path bs top_n. fs w file_path = Some (File bs) \<longrightarrow>
            (\<exists>r. analyze_log U w file_path top_n = Inr r \<and>
                 (\<forall>e\<in>set (top_error_paths r). fst e \<noteq> [] \<and> 1 \<le> snd e)))"
proof -
  from tok have "path_token rest = None"
    by (auto simp: path_token_def)
  with LOG_RE_search_forward [OF y mo d w0 hh mi ss ts ws1 lv ws2 mid here first, of rest] raw
  have m: "LOG_RE_search U (strip raw) = Some \<lparr>m_ts = ts, m_level = lv, m_path = None\<rparr>"
    by simp
  from raw lv have ne: "strip raw \<noteq> []"
    by (auto simp: LEVELS_def)
  from m ne have s: "scan_line U st raw =
           st\<lparr>total_lines := total_lines st + 1, parsed_lines := parsed_lines st + 1,
              level_counts := counter_incr (level_counts st) lv\<rparr>"
    by (simp add: scan_line_def Let_def)
  then have "error_paths (scan_line U st raw) = error_paths st"
    by simp
  with m s top_error_paths_entries [of _ _ _ U] show ?thesis
    by blast
qed

theorem empty_path_token_is_no_path_witness:
  "strip empty_token_raw = lit ''2026-02-18 07:01:06 ERROR xpath=/a path= status=500'' \<and>
   LOG_RE_search ascii_ucd (strip empty_token_raw) =
     Some \<lparr>m_ts = lit ''2026-02-18 07:01:06'', m_level = lit ''ERROR'', m_path = None\<rparr> \<and>
   scan_line ascii_ucd init_state empty_token_raw =
     init_state\<lparr>total_lines := 1, parsed_lines := 1, level_counts := [(lit ''ERROR'', 1)]\<rparr> \<and>
   error_paths (scan_line ascii_ucd init_state empty_token_raw) = [] \<and>
   (\<exists>r. analyze_log ascii_ucd sample_world (lit ''app.log'') 5 = Inr r \<and>
        (\<forall>e\<in>set (top_error_paths r). fst e \<noteq> [] \<and> 1 \<le> snd e))"
proof -
  have y: "digit_run ascii_ucd 4 (lit ''2026'')"
    and mo: "digit_run ascii_ucd 2 (lit ''02'')"
    and d: "digit_run ascii_ucd 2 (lit ''18'')"
    and hh: "digit_run ascii_ucd 2 (lit ''07'')"
    and mi: "digit_run ascii_ucd 2 (lit ''01'')"
    and ss: "digit_run ascii_ucd 2 (lit ''06'')"
    by (simp_all add: digit_run_def is_digit_def)
  have sp: "spaces (lit '' '')"
    by (simp add: spaces_def is_space_def)
  have lv: "lit ''ERROR'' \<in> set LEVELS"
    by (simp add: LEVELS_def)
  have mid: "list_all (\<lambda>c. c \<noteq> 10) (lit ''xpath=/a '')"
    by simp
  have here: "\<not> is_word ascii_ucd (last (lit '' '' @ lit ''xpath=/a ''))"
    by (simp add: is_word_def)
  have first: "\<forall>i<length (lit ''xpath=/a '').
      prefix (lit ''path='') (drop i (lit ''xpath=/a '' @ lit ''path='')) \<longrightarrow>
      is_word ascii_ucd (last (lit '' '' @ take i (lit ''xpath=/a '')))"
    by (simp add: All_less_Suc is_word_def)
  have tok: "lit '' status=500'' = [] \<or> is_space (hd (lit '' status=500''))"
    by (simp add: is_space_def)
  have raw: "strip empty_token_raw =
      (lit ''2026'' @ lit ''-'' @ lit ''02'' @ lit ''-'' @ lit ''18'' @ lit '' '' @ lit ''07'' @
       lit '':'' @ lit ''01'' @ lit '':'' @ lit ''06'') @ lit '' '' @ lit ''ERROR'' @ lit '' '' @
      lit ''xpath=/a '' @ lit ''path='' @ lit '' status=500''"
    by (simp add: strip_def empty_token_raw_def is_space_def)
  have f: "fs sample_world (lit ''app.log'') = Some (File sample_bytes)"
    by (rule sample_world_file)
  note t = empty_path_token_is_no_path [OF y mo d sp hh mi ss refl sp lv sp mid here first tok raw,
      of init_state]
  from t have "\<exists>r. analyze_log ascii_ucd sample_world (lit ''app.log'') 5 = Inr r \<and>
        (\<forall>e\<in>set (top_error_paths r). fst e \<noteq> [] \<and> 1 \<le> snd e)"
    using f by blast
  moreover from t have "LOG_RE_search ascii_ucd (strip empty_token_raw) =
     Some \<lparr>m_ts = lit ''2026-02-18 07:01:06'', m_level = lit ''ERROR'', m_path = None\<rparr>"
    by simp
  moreover from t have "scan_line ascii_ucd init_state empty_token_raw =
     init_state\<lparr>total_lines := 1, parsed_lines := 1, level_counts := [(lit ''ERROR'', 1)]\<rparr>"
    by (simp add: init_state_def counter_incr_def dict_get_def)
  moreover from t have "error_paths (scan_line ascii_ucd init_state empty_token_raw) = []"
    by (simp add: init_state_def)
  moreover have "strip empty_token_raw =
      lit ''2026-02-18 07:01:06 ERROR xpath=/a path= status=500''"
    by (simp add: strip_def empty_token_raw_def is_space_def)
  ultimately show ?thesis by blast
qed

end
